theory Spec2Isabelle
  imports Main "HOL-Library.Word" "HOL-Library.AList"
begin

section \<open>Work queue (window.js, class WorkQueue)\<close>

text \<open>
  A work item is a node of the reactive tree; the queue only reads its \<open>depth\<close>.
  \<open>node\<close> stands for the identity of the JavaScript object.
\<close>

record work_item =
  node :: nat
  depth :: int

text \<open>
  \<open>add\<close> scans the array from its last index down to 0. \<open>add_scan k item q\<close> is the
  loop at \<open>i = k - 1\<close>: \<open>add_scan 0\<close> is the exit of the loop (\<open>i = -1\<close>), where the item is
  unshifted; \<open>splice(i + 1, 0, item)\<close> inserts the item before index \<open>i + 1\<close>.
\<close>

fun add_scan :: "nat \<Rightarrow> work_item \<Rightarrow> work_item list \<Rightarrow> work_item list" where
  "add_scan 0 item q = item # q"
| "add_scan (Suc i) item q =
     (if depth (q ! i) \<le> depth item then take (Suc i) q @ item # drop (Suc i) q
      else add_scan i item q)"

definition add :: "work_item \<Rightarrow> work_item list \<Rightarrow> work_item list" where
  "add item q = add_scan (length q) item q"

definition isEmpty :: "work_item list \<Rightarrow> bool" where
  "isEmpty q = (length q = 0)"

text \<open>\<open>poll\<close> is \<open>Array.shift\<close>: on an empty array it returns \<open>undefined\<close> (here \<open>None\<close>).\<close>

definition poll :: "work_item list \<Rightarrow> work_item option \<times> work_item list" where
  "poll q = (case q of [] \<Rightarrow> (None, []) | x # xs \<Rightarrow> (Some x, xs))"

section \<open>Buffer pool\<close>

type_synonym byte = "8 word"
type_synonym buffer = "byte list"

text \<open>
  Modelled from the spec: \<open>buffer-pool.js\<close> (the \<open>bufferPool\<close> object and the constant
  \<open>PAGE_SIZE\<close> that window.js imports) is not among the sources. Section 4.1:
  \<open>alloc\<close> removes and returns one fixed-size block from the free list, allocating a new
  block only if the list is empty; \<open>returnBuffer\<close> pushes a block back onto the free list.
  \<open>PAGE_SIZE\<close> is a parameter of every definition that needs it. A recycled block keeps
  the bytes it held; a new block is taken to be zero-filled.
\<close>

definition bufferPool_alloc :: "nat \<Rightarrow> buffer list \<Rightarrow> buffer \<times> buffer list" where
  "bufferPool_alloc PAGE_SIZE pool =
     (case pool of [] \<Rightarrow> (replicate PAGE_SIZE 0, []) | b # bs \<Rightarrow> (b, bs))"

definition returnBuffer :: "buffer \<Rightarrow> buffer list \<Rightarrow> buffer list" where
  "returnBuffer b pool = b # pool"

section \<open>Node's Buffer.subarray\<close>

text \<open>
  \<open>buf.subarray(start, end)\<close> is a view on the same memory. A negative index counts from
  the end, every index is clamped to \<open>[0, length]\<close>, and the view is empty when the end is
  not behind the start. \<open>subarray_range\<close> gives the view as (first index, byte count).
\<close>

definition rel_index :: "nat \<Rightarrow> int \<Rightarrow> nat" where
  "rel_index len i = (if i < 0 then nat (max (int len + i) 0) else min (nat i) len)"

definition subarray_range :: "nat \<Rightarrow> int \<Rightarrow> int \<Rightarrow> nat \<times> nat" where
  "subarray_range len start fin = (rel_index len start, rel_index len fin - rel_index len start)"

definition subarray :: "buffer \<Rightarrow> int \<Rightarrow> int \<Rightarrow> buffer" where
  "subarray b start fin =
     (case subarray_range (length b) start fin of (first, n) \<Rightarrow> take n (drop first b))"

section \<open>Window (window.js, class Window)\<close>

datatype error =
    InvalidOffset int int  \<comment> \<open>\<open>throw new Error(`Invalid offset: ...`)\<close> in registerReadOffset\<close>
  | ReplayError            \<comment> \<open>\<open>throw new Error()\<close> at the end of _restreamUnreadPages\<close>
  | TypeError              \<comment> \<open>a property read or a call on \<open>undefined\<close> or \<open>null\<close>\<close>
  | RangeError             \<comment> \<open>Node's ERR_OUT_OF_RANGE from a Buffer write\<close>

record page =
  global_headOffset :: int
  buffer :: buffer
  finalSize :: int

text \<open>
  Page objects are shared: the array \<open>pages\<close> and the open mutation group point to the same
  object, and \<open>_allocCommandBuffer\<close> sets \<open>finalSize\<close> through the group's pointer. So
  the model keeps a table \<open>page_objs\<close> of every page object the window has created, and a
  reference to a page is its index in that table. \<open>pages\<close> is the JavaScript array, as a
  list of references.
\<close>

record mutation_group =
  mg_page :: nat
  pageStartOffset :: int

text \<open>
  The fields of \<open>Window\<close> that the modelled methods read or write. \<open>port\<close> is the
  transport: the list of the messages handed to \<open>port.send\<close>, oldest first.
  \<open>destroyFnCallback\<close> is \<open>null\<close> (\<open>None\<close>) until \<open>onDestroy\<close> registers the window
  manager's closure, which is represented by the session id it deletes from the registry.
  \<open>tokenList\<close> is a JavaScript Map in insertion order. \<open>deleteBlockQueue\<close> is the
  used part of \<open>deleteBlockCommandBuffer\<close>: the \<open>deleteBlockCount\<close> block ids that
  \<open>_handleBlockCleanup\<close> stored there as 16-bit big-endian numbers.
\<close>

record window =
  window_id :: string
  port :: "buffer list"
  destroyFnCallback :: "string option"
  connected :: bool
  page_objs :: "page list"
  pages :: "nat list"
  global_readOffset :: int
  global_writeOffset :: int
  mutationGroup :: "mutation_group option"
  deleteBlockQueue :: "16 word list"
  tokenList :: "(string \<times> nat) list"
  lastPongTime :: int

text \<open>The buffer pool is a global of the process: a window method runs on the pool and the window.\<close>

type_synonym state = "buffer list \<times> window"

text \<open>
  A view returned by \<open>subarray\<close> on a page's buffer: the page, the first index and the
  number of bytes.
\<close>

record view =
  view_page :: nat
  view_start :: nat
  view_len :: nat

definition allocPage :: "nat \<Rightarrow> int \<Rightarrow> state \<Rightarrow> nat \<times> state" where
  "allocPage PAGE_SIZE headOffset s =
     (case s of (pool, w) \<Rightarrow>
        (case bufferPool_alloc PAGE_SIZE pool of (buf, pool') \<Rightarrow>
           (length (page_objs w),
            (pool', w\<lparr>page_objs := page_objs w @
                        [\<lparr>global_headOffset = headOffset, buffer = buf, finalSize = 0\<rparr>],
                      pages := pages w @ [length (page_objs w)]\<rparr>))))"

definition flushMutationGroup :: "window \<Rightarrow> window" where
  "flushMutationGroup w =
     (case mutationGroup w of
        None \<Rightarrow> w\<lparr>mutationGroup := None\<rparr>
      | Some mg \<Rightarrow>
          (if connected w \<and> global_writeOffset w - pageStartOffset mg > 0 then
             (let pg = page_objs w ! mg_page mg;
                  offset = pageStartOffset mg - global_headOffset pg;
                  sz = global_writeOffset w - pageStartOffset mg
              in w\<lparr>port := port w @ [subarray (buffer pg) offset (offset + sz)],
                   mutationGroup := None\<rparr>)
           else w\<lparr>mutationGroup := None\<rparr>))"

text \<open>
  The first block of \<open>_allocCommandBuffer\<close>: with no group open, open one on the last
  page of the array, or on a new page when the array is empty.
\<close>

definition openMutationGroup :: "nat \<Rightarrow> state \<Rightarrow> mutation_group \<times> state" where
  "openMutationGroup PAGE_SIZE s =
     (case s of (pool, w) \<Rightarrow>
        (case mutationGroup w of
           Some mg \<Rightarrow> (mg, s)
         | None \<Rightarrow>
             (let pageCount = length (pages w);
                  (pg, (pool1, w1)) =
                    (if pageCount = 0 then allocPage PAGE_SIZE (global_writeOffset w) s
                     else (pages w ! (pageCount - 1), s));
                  mg = \<lparr>mg_page = pg, pageStartOffset = global_writeOffset w1\<rparr>
              in (mg, (pool1, w1\<lparr>mutationGroup := Some mg\<rparr>)))))"

definition view_of :: "window \<Rightarrow> nat \<Rightarrow> int \<Rightarrow> int \<Rightarrow> view" where
  "view_of w pg start fin =
     (case subarray_range (length (buffer (page_objs w ! pg))) start fin of
        (first, n) \<Rightarrow> \<lparr>view_page = pg, view_start = first, view_len = n\<rparr>)"

definition allocCommandBuffer :: "nat \<Rightarrow> int \<Rightarrow> state \<Rightarrow> view \<times> state" where
  "allocCommandBuffer PAGE_SIZE sz s =
     (case openMutationGroup PAGE_SIZE s of (mg, (pool1, w1)) \<Rightarrow>
        (let currentPageOffset =
               global_writeOffset w1 - global_headOffset (page_objs w1 ! mg_page mg)
         in if currentPageOffset + sz \<ge> int PAGE_SIZE then
              (let w2 = w1\<lparr>page_objs := (page_objs w1)
                          [mg_page mg := (page_objs w1 ! mg_page mg)\<lparr>finalSize := currentPageOffset\<rparr>]\<rparr>;
                   w3 = flushMutationGroup w2;
                   (newPage, (pool4, w4)) = allocPage PAGE_SIZE (global_writeOffset w3) (pool1, w3);
                   w5 = w4\<lparr>mutationGroup :=
                          Some \<lparr>mg_page = newPage, pageStartOffset = global_writeOffset w4\<rparr>\<rparr>;
                   w6 = w5\<lparr>global_writeOffset := global_writeOffset w5 + sz\<rparr>
               in (view_of w6 newPage 0 (0 + sz), (pool4, w6)))
            else
              (let w2 = w1\<lparr>global_writeOffset := global_writeOffset w1 + sz\<rparr>
               in (view_of w2 (mg_page mg) currentPageOffset (currentPageOffset + sz),
                   (pool1, w2)))))"

text \<open>
  An encoder asks for the exact length of its command and writes the fields into the view
  it gets. \<open>write_view\<close> stores \<open>bs\<close> at the start of the view; bytes that do not fit the
  view are not stored.
\<close>

definition write_view :: "view \<Rightarrow> buffer \<Rightarrow> window \<Rightarrow> window" where
  "write_view v bs w =
     (let pg = page_objs w ! view_page v;
          bs' = take (view_len v) bs;
          buf = take (view_start v) (buffer pg) @ bs' @ drop (view_start v + length bs') (buffer pg)
      in w\<lparr>page_objs := (page_objs w)[view_page v := pg\<lparr>buffer := buf\<rparr>]\<rparr>)"

text \<open>
  Any encoder (\<open>_streamTextInitCommand\<close>, \<open>_streamAttachBlockCommand\<close>,
  \<open>_streamBlockInitCommand2\<close>, ...): the command \<open>bs\<close> is written into a range of
  \<open>length bs\<close> bytes. A Buffer write behind the end of the view raises RangeError.
\<close>

definition writeCommand :: "nat \<Rightarrow> buffer \<Rightarrow> state \<Rightarrow> error option \<times> state" where
  "writeCommand PAGE_SIZE bs s =
     (case allocCommandBuffer PAGE_SIZE (int (length bs)) s of (buf, (pool, w)) \<Rightarrow>
        (if view_len buf < length bs then Some RangeError else None,
         (pool, write_view buf bs w)))"

definition bytes_of :: "string \<Rightarrow> buffer" where
  "bytes_of str = map (\<lambda>c. word_of_nat (of_char c)) str"

definition CMD_INIT_WINDOW :: byte where "CMD_INIT_WINDOW = 2"
definition CMD_REMOVE_BLOCKS :: byte where "CMD_REMOVE_BLOCKS = 9"
definition CMD_MODIFY_TOKENMAP :: byte where "CMD_MODIFY_TOKENMAP = 12"

text \<open>
  \<open>_streamInitWindow\<close>: opcode 2, then \<open>buf.write(this.id, 1, 21)\<close>, which stores at most
  21 bytes of the id and leaves the rest of the range as it was. \<open>writeUint8\<close> raises
  RangeError on an empty range, and \<open>write\<close> raises it when its length argument, 21, is
  above the length of the range; with a range of 21 bytes it stores 20 bytes of the id.
\<close>

definition streamInitWindow :: "nat \<Rightarrow> state \<Rightarrow> error option \<times> state" where
  "streamInitWindow PAGE_SIZE s =
     (case allocCommandBuffer PAGE_SIZE (1 + 21) s of (buf, (pool, w)) \<Rightarrow>
        (if view_len buf < 21
         then (Some RangeError, (pool, write_view buf [CMD_INIT_WINDOW] w))
         else (None, (pool, write_view buf
                              (CMD_INIT_WINDOW # take 21 (bytes_of (window_id w))) w))))"

text \<open>
  The constructor, as far as the fields above go: the assignments before
  \<open>_streamInitWindow\<close>, the call, and the assignments after it. \<open>now\<close> is \<open>Date.now()\<close>.
  When \<open>_streamInitWindow\<close> raises, the constructor ends there and no window is handed to
  the caller; the state is then the pool and the fields as they are at the throw.
\<close>

definition new_window ::
    "nat \<Rightarrow> int \<Rightarrow> string \<Rightarrow> buffer list \<Rightarrow> buffer list \<Rightarrow> error option \<times> state" where
  "new_window PAGE_SIZE now windowId prt pool =
     (case streamInitWindow PAGE_SIZE
             (pool, \<lparr>window_id = windowId, port = prt, destroyFnCallback = None,
                     connected = True, page_objs = [], pages = [],
                     global_readOffset = 0, global_writeOffset = 0, mutationGroup = None,
                     deleteBlockQueue = [], tokenList = [], lastPongTime = 0\<rparr>) of
        (Some e, s) \<Rightarrow> (Some e, s)
      | (None, (pool', w)) \<Rightarrow>
          (None, (pool', w\<lparr>deleteBlockQueue := [], tokenList := [([], 0)],
                            lastPongTime := now\<rparr>)))"

definition sendPing :: "window \<Rightarrow> window" where
  "sendPing w = w\<lparr>port := port w @ [[0]]\<rparr>"

definition uint16BE :: "16 word \<Rightarrow> buffer" where
  "uint16BE x = [ucast (drop_bit 8 x), ucast x]"

text \<open>
  \<open>flushBlockDeleteQueue\<close>: the opcode, the ids (\<open>copy\<close> stores what fits the range and
  raises nothing), and the end marker, for which \<open>writeUint16BE\<close> raises RangeError when
  the range is shorter than the command; the count is then not reset.
  \<open>_handleBlockCleanup\<close> flushes a full id buffer (1000 ids) before it stores the id; an
  exception of the flush leaves it before the id is stored, and a write behind the 2000
  bytes of the id buffer raises RangeError.
\<close>

definition flushBlockDeleteQueue :: "nat \<Rightarrow> state \<Rightarrow> error option \<times> state" where
  "flushBlockDeleteQueue PAGE_SIZE s =
     (case s of (pool, w) \<Rightarrow>
        (if length (deleteBlockQueue w) > 0 then
           (case allocCommandBuffer PAGE_SIZE (1 + 2 * int (length (deleteBlockQueue w)) + 2) s of
              (buf, (pool1, w1)) \<Rightarrow>
                (if view_len buf < 1 + 2 * length (deleteBlockQueue w) + 2
                 then (Some RangeError,
                       (pool1, write_view buf
                                 (CMD_REMOVE_BLOCKS # concat (map uint16BE (deleteBlockQueue w)))
                                 w1))
                 else (None,
                       (pool1, (write_view buf
                                  (CMD_REMOVE_BLOCKS #
                                     concat (map uint16BE (deleteBlockQueue w)) @ uint16BE 0) w1)
                               \<lparr>deleteBlockQueue := []\<rparr>))))
         else (None, s)))"

definition handleBlockCleanup :: "nat \<Rightarrow> 16 word \<Rightarrow> state \<Rightarrow> error option \<times> state" where
  "handleBlockCleanup PAGE_SIZE blockId s =
     (case (if length (deleteBlockQueue (snd s)) = 1000 then flushBlockDeleteQueue PAGE_SIZE s
            else (None, s)) of
        (Some e, s1) \<Rightarrow> (Some e, s1)
      | (None, (pool, w)) \<Rightarrow>
          (if length (deleteBlockQueue w) < 1000
           then (None, (pool, w\<lparr>deleteBlockQueue := deleteBlockQueue w @ [blockId]\<rparr>))
           else (Some RangeError, (pool, w))))"

text \<open>
  The loop of \<open>registerReadOffset\<close>. \<open>this.pages[0]\<close> of an empty array is \<open>undefined\<close>,
  and \<open>page.finalSize\<close> then raises TypeError.
\<close>

fun freePages :: "page list \<Rightarrow> int \<Rightarrow> nat list \<Rightarrow> buffer list
    \<Rightarrow> error option \<times> nat list \<times> buffer list" where
  "freePages objs readOffset [] pool = (Some TypeError, [], pool)"
| "freePages objs readOffset (r # rs) pool =
     (if finalSize (objs ! r) = 0 then (None, r # rs, pool)
      else if readOffset \<ge> global_headOffset (objs ! r) + finalSize (objs ! r)
           then freePages objs readOffset rs (returnBuffer (buffer (objs ! r)) pool)
      else (None, r # rs, pool))"

definition registerReadOffset :: "int \<Rightarrow> state \<Rightarrow> error option \<times> state" where
  "registerReadOffset readOffset s =
     (case s of (pool, w) \<Rightarrow>
        (if readOffset < global_readOffset w
         then (Some (InvalidOffset readOffset (global_readOffset w)), s)
         else (case freePages (page_objs w) readOffset (pages w) pool of
                 (err, pgs, pool') \<Rightarrow>
                   (err, (pool', w\<lparr>global_readOffset := readOffset, pages := pgs\<rparr>)))))"

text \<open>
  \<open>registerPong\<close>, and the same three steps in \<open>_processMessages\<close> of the window
  manager: \<open>now\<close> is \<open>Date.now()\<close>, \<open>readOffset\<close> the number that \<open>readUInt32LE(1)\<close>
  takes from the pong message.
\<close>

definition registerPong :: "int \<Rightarrow> int \<Rightarrow> state \<Rightarrow> error option \<times> state" where
  "registerPong now readOffset s =
     (case s of (pool, w) \<Rightarrow>
        registerReadOffset readOffset (pool, w\<lparr>lastPongTime := now, connected := True\<rparr>))"

text \<open>The \<open>for\<close> loop of \<open>_restreamUnreadPages\<close>: the messages sent and the final \<open>readOffset\<close>.\<close>

fun restreamPages :: "page list \<Rightarrow> int \<Rightarrow> nat list \<Rightarrow> int \<Rightarrow> buffer list \<times> int" where
  "restreamPages objs writeOffset [] readOffset = ([], readOffset)"
| "restreamPages objs writeOffset (r # rs) readOffset =
     (let pg = objs ! r;
          offset = readOffset - global_headOffset pg;
          sz = (if finalSize pg > 0 then (global_headOffset pg + finalSize pg) - readOffset
                else writeOffset - readOffset);
          msg = subarray (buffer pg) offset (offset + sz)
      in (case restreamPages objs writeOffset rs (readOffset + sz) of
            (msgs, readOffset') \<Rightarrow> (msg # msgs, readOffset')))"

definition restreamUnreadPages :: "window \<Rightarrow> error option \<times> window" where
  "restreamUnreadPages w =
     (if global_writeOffset w > global_readOffset w then
        (case restreamPages (page_objs w) (global_writeOffset w) (pages w) (global_readOffset w) of
           (msgs, readOffset) \<Rightarrow>
             (if readOffset \<noteq> global_writeOffset w then Some ReplayError else None,
              w\<lparr>port := port w @ msgs\<rparr>))
      else (None, w))"

text \<open>
  \<open>reconnect(port, pageParams)\<close>: \<open>newPort\<close> is the new transport, \<open>readOffset\<close> the offset
  in \<open>pageParams\<close>. An exception of \<open>registerReadOffset\<close> leaves the function before the
  replay, with the assignments made so far.
\<close>

definition reconnect :: "buffer list \<Rightarrow> int \<Rightarrow> int \<Rightarrow> state \<Rightarrow> error option \<times> state" where
  "reconnect newPort now readOffset s =
     (case s of (pool, w) \<Rightarrow>
        (case registerReadOffset readOffset
                (pool, w\<lparr>port := newPort, connected := True, lastPongTime := now\<rparr>) of
           (Some e, s1) \<Rightarrow> (Some e, s1)
         | (None, (pool1, w1)) \<Rightarrow>
             (case restreamUnreadPages w1 of (err, w2) \<Rightarrow> (err, (pool1, w2)))))"

definition disconnect :: "window \<Rightarrow> window" where
  "disconnect w = w\<lparr>connected := False\<rparr>"

definition onDestroy :: "string \<Rightarrow> window \<Rightarrow> window" where
  "onDestroy fn w = w\<lparr>destroyFnCallback := Some fn\<rparr>"

section \<open>Token table (window.js, _registerAttrKey, _registerStyleKey, _streamModifyToken)\<close>

text \<open>
  \<open>buf.writeUint8(tokenLength, 1)\<close> raises RangeError for a length above 255, after the
  opcode has been written. When the range is shorter than the command, one of the writes
  raises RangeError: \<open>buf.write(tokenName, 2, tokenLength)\<close> when \<open>tokenLength\<close> is above
  the length of the range, and otherwise the last \<open>writeUint8\<close>, after the bytes of the
  name that fit have been stored.
\<close>

definition streamModifyToken :: "nat \<Rightarrow> string \<Rightarrow> state \<Rightarrow> error option \<times> state" where
  "streamModifyToken PAGE_SIZE tokenName s =
     (let tokenLength = length (bytes_of tokenName)
      in case allocCommandBuffer PAGE_SIZE (1 + 1 + int tokenLength + 1) s of
           (buf, (pool, w)) \<Rightarrow>
             (if tokenLength > 255
              then (Some RangeError, (pool, write_view buf [CMD_MODIFY_TOKENMAP] w))
              else if view_len buf < tokenLength
              then (Some RangeError,
                    (pool, write_view buf [CMD_MODIFY_TOKENMAP, word_of_nat tokenLength] w))
              else if view_len buf < 1 + 1 + tokenLength + 1
              then (Some RangeError,
                    (pool, write_view buf
                             (CMD_MODIFY_TOKENMAP # word_of_nat tokenLength #
                                bytes_of tokenName) w))
              else (None,
                    (pool, write_view buf
                             (CMD_MODIFY_TOKENMAP # word_of_nat tokenLength #
                                bytes_of tokenName @ [0]) w))))"

definition tokenList_has :: "(string \<times> nat) list \<Rightarrow> string \<Rightarrow> bool" where
  "tokenList_has toks k = (map_of toks k \<noteq> None)"

text \<open>
  The result is \<open>this.tokenList.get(attrName)\<close>: \<open>Some\<close> id, or \<open>None\<close> for \<open>undefined\<close>.
  An exception of \<open>_streamModifyToken\<close> leaves the method after the table was changed.
\<close>

definition registerAttrKey :: "nat \<Rightarrow> string \<Rightarrow> state \<Rightarrow> (error + nat option) \<times> state" where
  "registerAttrKey PAGE_SIZE attrName s =
     (case s of (pool, w) \<Rightarrow>
        (if \<not> tokenList_has (tokenList w) attrName then
           (let newId = length (tokenList w);
                w1 = w\<lparr>tokenList := AList.update attrName newId (tokenList w)\<rparr>
            in case streamModifyToken PAGE_SIZE attrName (pool, w1) of
                 (Some e, s2) \<Rightarrow> (Inl e, s2)
               | (None, (pool2, w2)) \<Rightarrow> (Inr (map_of (tokenList w2) attrName), (pool2, w2)))
         else (Inr (map_of (tokenList w) attrName), s)))"

definition registerStyleKey :: "nat \<Rightarrow> string \<Rightarrow> state \<Rightarrow> (error + nat option) \<times> state" where
  "registerStyleKey PAGE_SIZE propName s =
     (case s of (pool, w) \<Rightarrow>
        (if \<not> tokenList_has (tokenList w) propName then
           (let newId = length (tokenList w);
                w1 = w\<lparr>tokenList := AList.update propName newId (tokenList w)\<rparr>
            in case streamModifyToken PAGE_SIZE propName (pool, w1) of
                 (Some e, s2) \<Rightarrow> (Inl e, s2)
               | (None, (pool2, w2)) \<Rightarrow> (Inr (map_of (tokenList w2) propName), (pool2, w2)))
         else (Inr (map_of (tokenList w) propName), s)))"

section \<open>The life of a window\<close>

text \<open>
  The calls that reach the pages, the offsets or the transport of a window after its
  construction. An exception ends the call; what the call had changed stays changed.
\<close>

datatype action =
    Command buffer
  | RegisterAttrKey string
  | RegisterStyleKey string
  | HandleBlockCleanup "16 word"
  | FlushBlockDeleteQueue
  | FlushMutationGroup
  | RegisterPong int int
  | Reconnect "buffer list" int int
  | Disconnect

fun perform :: "nat \<Rightarrow> action \<Rightarrow> state \<Rightarrow> state" where
  "perform PAGE_SIZE (Command bs) s = snd (writeCommand PAGE_SIZE bs s)"
| "perform PAGE_SIZE (RegisterAttrKey k) s = snd (registerAttrKey PAGE_SIZE k s)"
| "perform PAGE_SIZE (RegisterStyleKey k) s = snd (registerStyleKey PAGE_SIZE k s)"
| "perform PAGE_SIZE (HandleBlockCleanup b) s = snd (handleBlockCleanup PAGE_SIZE b s)"
| "perform PAGE_SIZE FlushBlockDeleteQueue s = snd (flushBlockDeleteQueue PAGE_SIZE s)"
| "perform PAGE_SIZE FlushMutationGroup s = (fst s, flushMutationGroup (snd s))"
| "perform PAGE_SIZE (RegisterPong now readOffset) s = snd (registerPong now readOffset s)"
| "perform PAGE_SIZE (Reconnect newPort now readOffset) s = snd (reconnect newPort now readOffset s)"
| "perform PAGE_SIZE Disconnect s = (fst s, disconnect (snd s))"

definition run :: "nat \<Rightarrow> action list \<Rightarrow> state \<Rightarrow> state" where
  "run PAGE_SIZE acts s = foldl (\<lambda>s a. perform PAGE_SIZE a s) s acts"

section \<open>Window manager (window_manager.js)\<close>

text \<open>
  Modelled from the spec: \<open>FastRateLimit\<close> comes from the package \<open>fast-ratelimit\<close>, which
  is not among the sources. Section 4.7: a per-session token bucket with a capacity of N
  messages per fixed interval; a session over its limit gets \<open>false\<close>. The bucket of a
  session holds the tokens left and the time at which the interval ends; the interval
  starts with the first message after the previous one has ended. \<open>ttl\<close> is in seconds,
  \<open>now\<close> in milliseconds.
\<close>

type_synonym limiter = "(string \<times> nat \<times> int) list"

definition consumeSync :: "nat \<Rightarrow> int \<Rightarrow> int \<Rightarrow> string \<Rightarrow> limiter \<Rightarrow> bool \<times> limiter" where
  "consumeSync threshold ttl now namespace lim =
     (case (case map_of lim namespace of
              Some (tokens, expires) \<Rightarrow>
                if now < expires then (tokens, expires) else (threshold, now + ttl * 1000)
            | None \<Rightarrow> (threshold, now + ttl * 1000)) of
        (tokens, expires) \<Rightarrow>
          (if tokens > 0 then (True, AList.update namespace (tokens - 1, expires) lim)
           else (False, AList.update namespace (tokens, expires) lim)))"

text \<open>
  \<open>windowMap\<close> is a JavaScript Map in insertion order, from session id to window. An entry
  of \<open>queue\<close> is a pair of a window, given by its id, and a message.
  \<open>emptyQueueResolved\<close> counts the wait handles resolved for the consumer.
  \<open>bufferPool\<close> is the pool of the process, which the windows of the registry share.
  The file imports \<open>Window\<close> from a \<open>window.js\<close> beside it, which is not among the
  sources. The methods the sweep calls on a window (\<open>destroy\<close>, \<open>sendPing\<close>,
  \<open>flushBlockDeleteQueue\<close>) and \<open>onDestroy\<close>, \<open>disconnect\<close> are those of the class
  \<open>Window\<close> above; the constructor and \<open>reconnect\<close>, which the file calls with other
  arguments than that class takes, are parameters of the functions that call them.
\<close>

record manager =
  windowMap :: "(string \<times> window) list"
  queue :: "(string \<times> buffer) list"
  emptyQueueResolved :: nat
  messageLimiter :: limiter
  bufferPool :: "buffer list"

definition enqueueMessage :: "int \<Rightarrow> string \<Rightarrow> buffer \<Rightarrow> manager \<Rightarrow> manager" where
  "enqueueMessage now windowId message m =
     (let wasEmptyQueue = (length (queue m) = 0)
      in case consumeSync 8 2 now windowId (messageLimiter m) of
           (isUnderLimit, lim) \<Rightarrow>
             (if \<not> isUnderLimit then m\<lparr>messageLimiter := lim\<rparr>
              else (let m1 = m\<lparr>messageLimiter := lim, queue := queue m @ [(windowId, message)]\<rparr>
                    in if wasEmptyQueue
                       then m1\<lparr>emptyQueueResolved := emptyQueueResolved m1 + 1\<rparr>
                       else m1)))"

text \<open>
  Modelled from the spec: \<open>rootDisposer\<close> is the disposer that \<open>useDisposableEffect\<close>
  gave the constructor; it belongs to the reactive engine (\<open>state.js\<close>), which is not
  among the sources. Sections 4.5 and 6: on destruction the cleanup callbacks of the window
  run, those that effects have registered. The cleanups that window.js registers are
  \<open>_handleBlockCleanup(newBlockId)\<close> for every block made by \<open>_createBlock3\<close>, and
  \<open>_deallocateEventHandlers\<close>, which touches no field modelled here. A cleanup is
  registered after \<open>writeUint16BE\<close> has accepted the block id, so the ids are 16-bit
  numbers. \<open>disposed\<close> is the list of the block ids whose cleanups the disposer runs, in
  the order in which it runs them; an exception of a cleanup ends the disposer.
\<close>

fun rootDisposer :: "nat \<Rightarrow> 16 word list \<Rightarrow> state \<Rightarrow> error option \<times> state" where
  "rootDisposer PAGE_SIZE [] s = (None, s)"
| "rootDisposer PAGE_SIZE (blockId # disposed) s =
     (case handleBlockCleanup PAGE_SIZE blockId s of
        (Some e, s1) \<Rightarrow> (Some e, s1)
      | (None, s1) \<Rightarrow> rootDisposer PAGE_SIZE disposed s1)"

text \<open>
  \<open>Window.destroy\<close> (the second definition of that name in the class, which replaces the
  first), called on the window stored under \<open>key\<close>: \<open>rootDisposer\<close> runs, and what it
  changes in the window is changed in the registry, which holds the same object; then
  \<open>destroyFnCallback\<close>, the closure of \<open>initWindow\<close>, deletes its session id from
  \<open>windowMap\<close> (calling it while it is \<open>null\<close> raises TypeError); then the buffer of
  every page of \<open>pages\<close> goes back to the pool. An exception ends the method there.
\<close>

definition destroy ::
    "nat \<Rightarrow> 16 word list \<Rightarrow> string \<Rightarrow> window \<Rightarrow> manager \<Rightarrow> error option \<times> manager" where
  "destroy PAGE_SIZE disposed key w m =
     (case rootDisposer PAGE_SIZE disposed (bufferPool m, w) of
        (err, (pool, w1)) \<Rightarrow>
          (let m1 = m\<lparr>windowMap := AList.update key w1 (windowMap m), bufferPool := pool\<rparr>
           in case err of
                Some e \<Rightarrow> (Some e, m1)
              | None \<Rightarrow>
                  (case destroyFnCallback w1 of
                     None \<Rightarrow> (Some TypeError, m1)
                   | Some windowId \<Rightarrow>
                       (None, m1\<lparr>windowMap := AList.delete windowId (windowMap m1),
                                 bufferPool :=
                                   foldl (\<lambda>pool r. returnBuffer (buffer (page_objs w1 ! r)) pool)
                                     pool (pages w1)\<rparr>))))"

text \<open>
  The body of the \<open>for\<close> loop of \<open>_runWindowsLifecycleManagement\<close> for the window stored
  under \<open>key\<close>. \<open>isLowMemory\<close> is \<open>rss > RSS_LOW_MEMORY_THRESHOLD\<close>. \<open>disposed\<close> gives,
  for each session, the block ids that the disposer of its window cleans up.
\<close>

definition sweepWindow ::
    "nat \<Rightarrow> (string \<Rightarrow> 16 word list) \<Rightarrow> int \<Rightarrow> bool \<Rightarrow> string \<Rightarrow> manager
      \<Rightarrow> error option \<times> manager" where
  "sweepWindow PAGE_SIZE disposed now isLowMemory key m =
     (case map_of (windowMap m) key of
        None \<Rightarrow> (None, m)
      | Some w0 \<Rightarrow>
          (let pongDiff = now - lastPongTime w0;
               w = (if pongDiff \<ge> 6000 then w0\<lparr>connected := False\<rparr> else w0);
               m1 = m\<lparr>windowMap := AList.update key w (windowMap m)\<rparr>;
               destroyTimeout = 60000
           in if \<not> connected w \<and> (isLowMemory \<or> pongDiff \<ge> destroyTimeout)
              then destroy PAGE_SIZE (disposed key) key w m1
              else (case flushBlockDeleteQueue PAGE_SIZE (bufferPool m1, sendPing w) of
                      (err, (pool, w')) \<Rightarrow>
                        (err, m1\<lparr>windowMap := AList.update key w' (windowMap m1),
                                 bufferPool := pool\<rparr>))))"

text \<open>The loop over the windows; an exception in its body ends the timer callback.\<close>

fun sweepWindows ::
    "nat \<Rightarrow> (string \<Rightarrow> 16 word list) \<Rightarrow> int \<Rightarrow> bool \<Rightarrow> string list \<Rightarrow> manager
      \<Rightarrow> error option \<times> manager" where
  "sweepWindows PAGE_SIZE disposed now isLowMemory [] m = (None, m)"
| "sweepWindows PAGE_SIZE disposed now isLowMemory (key # keys) m =
     (case sweepWindow PAGE_SIZE disposed now isLowMemory key m of
        (Some e, m1) \<Rightarrow> (Some e, m1)
      | (None, m1) \<Rightarrow> sweepWindows PAGE_SIZE disposed now isLowMemory keys m1)"

definition runWindowsLifecycleManagement ::
    "nat \<Rightarrow> (string \<Rightarrow> 16 word list) \<Rightarrow> int \<Rightarrow> bool \<Rightarrow> manager
      \<Rightarrow> error option \<times> manager" where
  "runWindowsLifecycleManagement PAGE_SIZE disposed now isLowMemory m =
     sweepWindows PAGE_SIZE disposed now isLowMemory (map fst (windowMap m)) m"

text \<open>
  \<open>initWindow\<close> after the build has loaded: the window is constructed, stored, and given
  the closure that deletes it from the registry (the closure also calls
  \<open>windowDestroyCallback\<close>, which is the application's). An exception of the constructor
  ends the function before the window is stored. \<open>newWindow\<close> stands for
  \<open>new Window(windowId, initialPath, cookieString, build, port2)\<close>, the constructor of the
  class that is not among the sources: it gets the id, the transport and the pool, and
  gives an error or a window.
\<close>

definition initWindow ::
    "(string \<Rightarrow> buffer list \<Rightarrow> buffer list \<Rightarrow> error option \<times> state) \<Rightarrow> string \<Rightarrow> buffer list
      \<Rightarrow> manager \<Rightarrow> error option \<times> manager" where
  "initWindow newWindow windowId port2 m =
     (case newWindow windowId port2 (bufferPool m) of
        (Some e, (pool, w)) \<Rightarrow> (Some e, m\<lparr>bufferPool := pool\<rparr>)
      | (None, (pool, w)) \<Rightarrow>
          (None, m\<lparr>windowMap := AList.update windowId (onDestroy windowId w) (windowMap m),
                    bufferPool := pool\<rparr>))"

text \<open>
  \<open>reconnectWindow\<close> calls \<open>reconnect\<close> on \<open>this.windowMap.get(windowId)\<close> with no test:
  for an id that is not in the map this is a property read on \<open>undefined\<close>, a TypeError
  before anything is changed. For a registered id the call is
  \<open>reconnect(cookieString, readOffset)\<close>, a method of the class that is not among the
  sources; \<open>windowReconnect\<close> stands for it.
\<close>

definition reconnectWindow ::
    "(string \<Rightarrow> int \<Rightarrow> state \<Rightarrow> error option \<times> state) \<Rightarrow> string \<Rightarrow> string \<Rightarrow> int
      \<Rightarrow> manager \<Rightarrow> error option \<times> manager" where
  "reconnectWindow windowReconnect windowId cookieString readOffset m =
     (case map_of (windowMap m) windowId of
        None \<Rightarrow> (Some TypeError, m)
      | Some w \<Rightarrow>
          (case windowReconnect cookieString readOffset (bufferPool m, w) of
             (err, (pool, w')) \<Rightarrow>
               (err, m\<lparr>windowMap := AList.update windowId w' (windowMap m),
                       bufferPool := pool\<rparr>)))"

definition disconnectWindow :: "string \<Rightarrow> manager \<Rightarrow> error option \<times> manager" where
  "disconnectWindow windowId m =
     (if map_of (windowMap m) windowId \<noteq> None then
        (case map_of (windowMap m) windowId of
           None \<Rightarrow> (Some TypeError, m)
         | Some w \<Rightarrow> (None, m\<lparr>windowMap := AList.update windowId (disconnect w) (windowMap m)\<rparr>))
      else (None, m))"

section \<open>Invariants of a window\<close>

text \<open>
  \<open>pages_ok\<close>: the array \<open>pages\<close> holds the references of the objects created last, in
  the order of their creation, it is not empty, its last page has \<open>finalSize = 0\<close>, and an
  open mutation group points to that last page. \<open>offsets_ok\<close>: no page starts behind the
  write offset and no \<open>finalSize\<close> is negative. \<open>blank\<close> is the window of the constructor
  before \<open>_streamInitWindow\<close>.
\<close>

fun group_on :: "nat \<Rightarrow> mutation_group option \<Rightarrow> bool" where
  "group_on n None = True"
| "group_on n (Some mg) = (Suc (mg_page mg) = n)"

definition group_on_tail :: "window \<Rightarrow> bool" where
  "group_on_tail w = group_on (length (page_objs w)) (mutationGroup w)"

definition pages_ok :: "window \<Rightarrow> bool" where
  "pages_ok w =
     (hd (pages w) < length (page_objs w) \<and> pages w = [hd (pages w)..<length (page_objs w)]
      \<and> finalSize (last (page_objs w)) = 0 \<and> group_on_tail w)"

definition blank :: "window \<Rightarrow> bool" where
  "blank w = (pages w = [] \<and> page_objs w = [] \<and> mutationGroup w = None)"

definition group_start :: "window \<Rightarrow> int" where
  "group_start w = (case mutationGroup w of None \<Rightarrow> global_writeOffset w
                    | Some mg \<Rightarrow> pageStartOffset mg)"

definition tail_ref :: "window \<Rightarrow> nat" where
  "tail_ref w = length (page_objs w) - 1"

definition tail_used :: "window \<Rightarrow> int" where
  "tail_used w = global_writeOffset w - global_headOffset (page_objs w ! tail_ref w)"

definition offsets_ok :: "window \<Rightarrow> bool" where
  "offsets_ok w = list_all (\<lambda>p. global_headOffset p \<le> global_writeOffset w \<and> 0 \<le> finalSize p)
                    (page_objs w)"

definition live_ok :: "window \<Rightarrow> bool" where
  "live_ok w = (pages_ok w \<and> offsets_ok w)"

section \<open>Window manager: notions for the proofs\<close>

text \<open>The messages of one session, each with its arrival time, in the order of arrival.\<close>

definition enqueueMessages :: "string \<Rightarrow> (int \<times> buffer) list \<Rightarrow> manager \<Rightarrow> manager" where
  "enqueueMessages windowId arrivals m =
     foldl (\<lambda>m (now, message). enqueueMessage now windowId message m) m arrivals"

text \<open>The fields of a window that the page allocator never writes.\<close>

definition session ::
    "window \<Rightarrow> bool \<times> int \<times> string option \<times> string \<times> (string \<times> nat) list" where
  "session w = (connected w, lastPongTime w, destroyFnCallback w, window_id w, tokenList w)"

definition stale :: "int \<Rightarrow> window \<Rightarrow> bool" where
  "stale now w = (now - lastPongTime w \<ge> 6000)"

definition evicted :: "int \<Rightarrow> bool \<Rightarrow> window \<Rightarrow> bool" where
  "evicted now isLowMemory w =
     ((\<not> connected w \<or> stale now w) \<and> (isLowMemory \<or> now - lastPongTime w \<ge> 60000))"

definition swept :: "int \<Rightarrow> bool \<Rightarrow> window \<Rightarrow> window option \<Rightarrow> bool" where
  "swept now isLowMemory w cur =
     (if evicted now isLowMemory w then cur = None
      else (case cur of None \<Rightarrow> False
            | Some w' \<Rightarrow> lastPongTime w' = lastPongTime w
                \<and> destroyFnCallback w' = destroyFnCallback w
                \<and> connected w' = (connected w \<and> \<not> stale now w)))"

definition callbacks_ok :: "manager \<Rightarrow> bool" where
  "callbacks_ok m = list_all (\<lambda>(k, w). destroyFnCallback w = Some k) (windowMap m)"

text \<open>
  Blocks keep their size: every block, in the pool or in a page, has \<open>PAGE_SIZE\<close> bytes.
  \<open>last_bytes n w\<close> is what the last page holds in the \<open>n\<close> bytes before the write
  offset.
\<close>

definition buffers_ok :: "nat \<Rightarrow> window \<Rightarrow> bool" where
  "buffers_ok P w = list_all (\<lambda>p. length (buffer p) = P) (page_objs w)"

definition blocks_ok :: "nat \<Rightarrow> state \<Rightarrow> bool" where
  "blocks_ok P st = (list_all (\<lambda>b. length b = P) (fst st) \<and> buffers_ok P (snd st))"

definition last_bytes :: "nat \<Rightarrow> window \<Rightarrow> buffer" where
  "last_bytes n w = take n (drop (nat (tail_used w) - n) (buffer (page_objs w ! tail_ref w)))"

text \<open>
  The registries the sweep is proved for: the windows carry the closure of \<open>initWindow\<close>,
  blocks keep their size, every window has the invariants above, and every REMOVE_BLOCKS
  command that the sweep can write for a window fits a page: the one for the ids that are
  queued and, when the window is destroyed, for the ids that its disposer adds to them (a
  command holds 1000 ids at most, so with pages of 2003 bytes or more it always fits).
\<close>

definition queue_fits :: "nat \<Rightarrow> nat \<Rightarrow> window \<Rightarrow> bool" where
  "queue_fits P d w =
     (length (deleteBlockQueue w) \<le> 1000
      \<and> 2 * min 1000 (length (deleteBlockQueue w) + d) + 3 \<le> P)"

definition window_ok :: "nat \<Rightarrow> nat \<Rightarrow> window \<Rightarrow> bool" where
  "window_ok P d w = (live_ok w \<and> buffers_ok P w \<and> queue_fits P d w)"

definition registry_ok :: "nat \<Rightarrow> (string \<Rightarrow> 16 word list) \<Rightarrow> manager \<Rightarrow> bool" where
  "registry_ok P disposed m =
     (callbacks_ok m \<and> list_all (\<lambda>b. length b = P) (bufferPool m)
      \<and> list_all (\<lambda>(k, w). window_ok P (length (disposed k)) w) (windowMap m))"

section \<open>The stream a window has produced\<close>

text \<open>
  The pages of the array, oldest first. \<open>stored P s wo\<close> says that these pages hold the
  stream \<open>s\<close> up to the write offset \<open>wo\<close>: every page but the last is sealed with a
  positive \<open>finalSize\<close> and the next page starts where it ends, the last page is the write
  target and is not empty, every buffer has \<open>PAGE_SIZE\<close> bytes, and the used part of each
  buffer is the part of the stream that starts at the page's \<open>headOffset\<close>.
\<close>

definition live :: "window \<Rightarrow> page list" where
  "live w = map (\<lambda>r. page_objs w ! r) (pages w)"

fun stored :: "nat \<Rightarrow> buffer \<Rightarrow> int \<Rightarrow> page list \<Rightarrow> bool" where
  "stored P s wo [] = False"
| "stored P s wo [p] =
     (finalSize p = 0 \<and> length (buffer p) = P \<and> 0 \<le> global_headOffset p
      \<and> global_headOffset p < wo \<and> wo - global_headOffset p \<le> int P
      \<and> take (nat (wo - global_headOffset p)) (buffer p) = drop (nat (global_headOffset p)) s)"
| "stored P s wo (p # q # ps) =
     (0 < finalSize p \<and> finalSize p \<le> int P \<and> length (buffer p) = P
      \<and> 0 \<le> global_headOffset p
      \<and> global_headOffset q = global_headOffset p + finalSize p
      \<and> take (nat (finalSize p)) (buffer p)
          = take (nat (finalSize p)) (drop (nat (global_headOffset p)) s)
      \<and> stored P s wo (q # ps))"

definition stream_ok :: "nat \<Rightarrow> buffer \<Rightarrow> state \<Rightarrow> bool" where
  "stream_ok P s st =
     (case st of (pool, w) \<Rightarrow>
        pages_ok w \<and> list_all (\<lambda>b. length b = P) pool
        \<and> int (length s) = global_writeOffset w
        \<and> global_headOffset (page_objs w ! hd (pages w)) \<le> global_readOffset w
        \<and> stored P s (global_writeOffset w) (live w))"

section \<open>The bytes each call produces\<close>

text \<open>
  The bytes a call appends to the stream, and the condition under which they fit: a command
  has at least one byte and at most \<open>PAGE_SIZE\<close>, and a token name has at most 255 bytes.
\<close>

definition token_command :: "string \<Rightarrow> buffer" where
  "token_command k =
     CMD_MODIFY_TOKENMAP # word_of_nat (length (bytes_of k)) # bytes_of k @ [0]"

definition remove_command :: "16 word list \<Rightarrow> buffer" where
  "remove_command q = CMD_REMOVE_BLOCKS # concat (map uint16BE q) @ uint16BE 0"

fun emitted :: "action \<Rightarrow> window \<Rightarrow> buffer" where
  "emitted (Command bs) w = bs"
| "emitted (RegisterAttrKey k) w =
     (if tokenList_has (tokenList w) k then [] else token_command k)"
| "emitted (RegisterStyleKey k) w =
     (if tokenList_has (tokenList w) k then [] else token_command k)"
| "emitted (HandleBlockCleanup b) w =
     (if length (deleteBlockQueue w) = 1000 then remove_command (deleteBlockQueue w) else [])"
| "emitted FlushBlockDeleteQueue w =
     (if length (deleteBlockQueue w) > 0 then remove_command (deleteBlockQueue w) else [])"
| "emitted FlushMutationGroup w = []"
| "emitted (RegisterPong now readOffset) w = []"
| "emitted (Reconnect newPort now readOffset) w = []"
| "emitted Disconnect w = []"

fun well_sized :: "nat \<Rightarrow> action \<Rightarrow> window \<Rightarrow> bool" where
  "well_sized P (Command bs) w = (0 < length bs \<and> length bs \<le> P)"
| "well_sized P (RegisterAttrKey k) w = (length k \<le> 255 \<and> length (emitted (RegisterAttrKey k) w) \<le> P)"
| "well_sized P (RegisterStyleKey k) w = (length k \<le> 255 \<and> length (emitted (RegisterStyleKey k) w) \<le> P)"
| "well_sized P a w = (length (emitted a w) \<le> P)"

fun produced :: "nat \<Rightarrow> action list \<Rightarrow> state \<Rightarrow> buffer" where
  "produced P [] st = []"
| "produced P (a # acts) st = emitted a (snd st) @ produced P acts (perform P a st)"

fun all_sized :: "nat \<Rightarrow> action list \<Rightarrow> state \<Rightarrow> bool" where
  "all_sized P [] st = True"
| "all_sized P (a # acts) st = (well_sized P a (snd st) \<and> all_sized P acts (perform P a st))"

text \<open>
  The command of \<open>_streamInitWindow\<close> as it stands in the first page after the
  constructor: the opcode, at most 21 bytes of the id, and what the buffer held behind them.
\<close>

definition init_command :: "state \<Rightarrow> buffer" where
  "init_command st = take (1 + 21) (buffer (page_objs (snd st) ! 0))"

section \<open>The work queue inserts by depth\<close>

lemma add_scan_skip:
  "\<forall>z \<in> set ys. depth item < depth z \<Longrightarrow>
   add_scan (length pre + length ys) item (pre @ ys) = add_scan (length pre) item (pre @ ys)"
proof (induction ys rule: rev_induct)
  case Nil
  show ?case by simp
next
  case (snoc z zs)
  have nth: "(pre @ zs @ [z]) ! (length pre + length zs) = z"
    by (simp add: nth_append)
  have "add_scan (length pre + length (zs @ [z])) item (pre @ zs @ [z])
        = add_scan (Suc (length pre + length zs)) item (pre @ zs @ [z])"
    by simp
  also have "\<dots> = add_scan (length pre + length zs) item (pre @ zs @ [z])"
    using snoc.prems nth by simp
  also have "\<dots> = add_scan (length pre) item (pre @ zs @ [z])"
  proof -
    have "\<forall>k \<le> length zs. add_scan (length pre + k) item (pre @ zs @ [z])
            = add_scan (length pre) item (pre @ zs @ [z])"
    proof (intro allI impI)
      fix k assume "k \<le> length zs"
      then show "add_scan (length pre + k) item (pre @ zs @ [z])
            = add_scan (length pre) item (pre @ zs @ [z])"
      proof (induction k)
        case 0
        show ?case by simp
      next
        case (Suc k)
        then have k: "k < length zs" by simp
        have "(pre @ zs @ [z]) ! (length pre + k) = zs ! k"
          using k by (simp add: nth_append)
        moreover have "depth item < depth (zs ! k)"
          using snoc.prems k by simp
        ultimately show ?case using Suc by simp
      qed
    qed
    then show ?thesis by simp
  qed
  finally show ?case by simp
qed

lemma add_after_last_le:
  assumes "depth y \<le> depth item" and "\<forall>z \<in> set ys. depth item < depth z"
  shows "add item (xs @ y # ys) = xs @ y # item # ys"
proof -
  have "add item (xs @ y # ys) = add_scan (length (xs @ [y]) + length ys) item ((xs @ [y]) @ ys)"
    by (simp add: add_def)
  also have "\<dots> = add_scan (length (xs @ [y])) item ((xs @ [y]) @ ys)"
    using assms(2) by (rule add_scan_skip)
  also have "\<dots> = add_scan (Suc (length xs)) item (xs @ y # ys)"
    by simp
  also have "\<dots> = xs @ y # item # ys"
    using assms(1) by (simp add: nth_append)
  finally show ?thesis .
qed

lemma add_front:
  assumes "\<forall>z \<in> set q. depth item < depth z"
  shows "add item q = item # q"
proof -
  have "add_scan (length ([]::work_item list) + length q) item ([] @ q)
        = add_scan (length ([]::work_item list)) item ([] @ q)"
    using assms by (rule add_scan_skip)
  then show ?thesis by (simp add: add_def)
qed

text \<open>
  Claim C7. For every queue and every new item, \<open>add\<close> puts the item directly behind the
  last element of the queue whose depth is at most the item's depth (every element behind
  that one is strictly deeper), and at the front when every element is strictly deeper;
  \<open>poll\<close> removes the front element and returns it.
\<close>

theorem workqueue_add_poll:
  "(depth y \<le> depth item \<and> (\<forall>z \<in> set ys. depth item < depth z)
      \<longrightarrow> add item (xs @ y # ys) = xs @ y # item # ys)
   \<and> ((\<forall>z \<in> set q. depth item < depth z) \<longrightarrow> add item q = item # q)
   \<and> poll (x # q) = (Some x, q)"
  using add_after_last_le [of y item ys xs] add_front [of q item]
  by (simp add: poll_def)

theorem workqueue_add_poll_witness:
  "depth \<lparr>node = 1, depth = 2\<rparr> \<le> depth \<lparr>node = 3, depth = 2\<rparr>
   \<and> depth \<lparr>node = 3, depth = 2\<rparr> < depth \<lparr>node = 2, depth = 5\<rparr>
   \<and> add \<lparr>node = 3, depth = 2\<rparr>
         [\<lparr>node = 0, depth = 1\<rparr>, \<lparr>node = 1, depth = 2\<rparr>, \<lparr>node = 2, depth = 5\<rparr>]
       = [\<lparr>node = 0, depth = 1\<rparr>, \<lparr>node = 1, depth = 2\<rparr>, \<lparr>node = 3, depth = 2\<rparr>,
          \<lparr>node = 2, depth = 5\<rparr>]
   \<and> add \<lparr>node = 3, depth = 2\<rparr> [\<lparr>node = 2, depth = 5\<rparr>]
       = [\<lparr>node = 3, depth = 2\<rparr>, \<lparr>node = 2, depth = 5\<rparr>]
   \<and> poll [\<lparr>node = 0, depth = 1\<rparr>, \<lparr>node = 2, depth = 5\<rparr>]
       = (Some \<lparr>node = 0, depth = 1\<rparr>, [\<lparr>node = 2, depth = 5\<rparr>])"
  using workqueue_add_poll [of "\<lparr>node = 1, depth = 2\<rparr>" "\<lparr>node = 3, depth = 2\<rparr>"
      "[\<lparr>node = 2, depth = 5\<rparr>]" "[\<lparr>node = 0, depth = 1\<rparr>]" "[\<lparr>node = 2, depth = 5\<rparr>]"
      "\<lparr>node = 0, depth = 1\<rparr>"]
  by simp

section \<open>The pages of a window\<close>

lemma pages_okI:
  assumes "r < length (page_objs w)" and "pages w = [r..<length (page_objs w)]"
    and "finalSize (last (page_objs w)) = 0" and "group_on_tail w"
  shows "pages_ok w"
proof -
  have "hd (pages w) = r" using assms(1,2) by (simp add: upt_conv_Cons)
  then show ?thesis using assms by (simp add: pages_ok_def)
qed

lemma pages_okD:
  assumes "pages_ok w"
  shows "hd (pages w) < length (page_objs w)" "pages w = [hd (pages w)..<length (page_objs w)]"
    "page_objs w \<noteq> []" "last (pages w) = length (page_objs w) - 1" "pages w \<noteq> []"
    "finalSize (last (page_objs w)) = 0" "group_on_tail w"
proof -
  show lt: "hd (pages w) < length (page_objs w)"
    and eq: "pages w = [hd (pages w)..<length (page_objs w)]"
    and "finalSize (last (page_objs w)) = 0" and "group_on_tail w"
    using assms by (simp_all add: pages_ok_def)
  show "page_objs w \<noteq> []"
  proof
    assume "page_objs w = []"
    with lt show False by simp
  qed
  from lt have "last [hd (pages w)..<length (page_objs w)] = length (page_objs w) - 1"
    by (metis last_upt)
  with eq show "last (pages w) = length (page_objs w) - 1" by simp
  show "pages w \<noteq> []"
  proof
    assume e: "pages w = []"
    from eq have "length (pages w) = length (page_objs w) - hd (pages w)"
      by (metis length_upt)
    with e lt show False by simp
  qed
qed

lemma openMutationGroup_blank:
  assumes "blank w"
  shows "openMutationGroup P (pool, w) =
          (\<lparr>mg_page = 0, pageStartOffset = global_writeOffset w\<rparr>,
           (snd (bufferPool_alloc P pool),
            w\<lparr>page_objs := [\<lparr>global_headOffset = global_writeOffset w,
                             buffer = fst (bufferPool_alloc P pool), finalSize = 0\<rparr>],
              pages := [0],
              mutationGroup := Some \<lparr>mg_page = 0, pageStartOffset = global_writeOffset w\<rparr>\<rparr>))"
  using assms
  by (simp add: blank_def openMutationGroup_def allocPage_def Let_def split: prod.splits)

lemma openMutationGroup_ok':
  assumes "pages_ok w"
  shows "openMutationGroup P (pool, w) =
          (\<lparr>mg_page = tail_ref w, pageStartOffset = group_start w\<rparr>,
           (pool, w\<lparr>mutationGroup := Some \<lparr>mg_page = tail_ref w, pageStartOffset = group_start w\<rparr>\<rparr>))"
proof (cases "mutationGroup w")
  case None
  from pages_okD[OF assms] have "pages w \<noteq> []" "last (pages w) = length (page_objs w) - 1"
    by simp_all
  then show ?thesis using None
    by (simp add: openMutationGroup_def Let_def last_conv_nth tail_ref_def group_start_def)
next
  case (Some mg)
  with assms have "Suc (mg_page mg) = length (page_objs w)"
    by (simp add: pages_ok_def group_on_tail_def)
  then have mg: "\<lparr>mg_page = tail_ref w, pageStartOffset = group_start w\<rparr> = mg"
    using Some by (simp add: tail_ref_def group_start_def)
  have "w\<lparr>mutationGroup := Some mg\<rparr> = w" using Some by simp
  then have "openMutationGroup P (pool, w) = (mg, (pool, w\<lparr>mutationGroup := Some mg\<rparr>))"
    using Some by (simp add: openMutationGroup_def)
  then show ?thesis using mg by simp
qed

lemma alloc_fits:
  assumes "pages_ok w" and "tail_used w + sz < int P"
  shows "allocCommandBuffer P sz (pool, w) =
           (view_of w (tail_ref w) (tail_used w) (tail_used w + sz),
            (pool, w\<lparr>mutationGroup := Some \<lparr>mg_page = tail_ref w, pageStartOffset = group_start w\<rparr>,
                      global_writeOffset := global_writeOffset w + sz\<rparr>))"
  using assms(2)
  by (simp add: allocCommandBuffer_def openMutationGroup_ok'[OF assms(1)] Let_def tail_used_def
      view_of_def)

lemma alloc_overflow:
  assumes "pages_ok w" and "tail_used w + sz \<ge> int P"
  shows "allocCommandBuffer P sz (pool, w) =
           (\<lparr>view_page = length (page_objs w), view_start = 0,
              view_len = rel_index (length (fst (bufferPool_alloc P pool))) sz\<rparr>,
            (snd (bufferPool_alloc P pool),
             w\<lparr>port := port (flushMutationGroup
                        (w\<lparr>mutationGroup := Some \<lparr>mg_page = tail_ref w, pageStartOffset = group_start w\<rparr>\<rparr>)),
               page_objs := (page_objs w)[tail_ref w := (page_objs w ! tail_ref w)\<lparr>finalSize := tail_used w\<rparr>]
                  @ [\<lparr>global_headOffset = global_writeOffset w,
                       buffer = fst (bufferPool_alloc P pool), finalSize = 0\<rparr>],
               pages := pages w @ [length (page_objs w)],
               mutationGroup := Some \<lparr>mg_page = length (page_objs w),
                                      pageStartOffset = global_writeOffset w\<rparr>,
               global_writeOffset := global_writeOffset w + sz\<rparr>))"
proof -
  have n: "tail_ref w < length (page_objs w)"
    using pages_okD(3)[OF assms(1)] by (simp add: tail_ref_def)
  show ?thesis
    using assms(2) n
    by (simp add: allocCommandBuffer_def openMutationGroup_ok'[OF assms(1)] Let_def tail_used_def
      view_of_def allocPage_def flushMutationGroup_def subarray_range_def rel_index_def nth_append
      split: prod.splits)
qed

lemma pages_ok_alloc:
  assumes "pages_ok w"
  shows "pages_ok (snd (snd (allocCommandBuffer P sz (pool, w))))"
proof (cases "tail_used w + sz < int P")
  case True
  have "pages_ok (w\<lparr>mutationGroup := Some \<lparr>mg_page = tail_ref w, pageStartOffset = group_start w\<rparr>,
                      global_writeOffset := global_writeOffset w + sz\<rparr>)"
    using pages_okD[OF assms]
    by (intro pages_okI[where r = "hd (pages w)"]) (simp_all add: group_on_tail_def tail_ref_def)
  then show ?thesis by (simp add: alloc_fits[OF assms True])
next
  case False
  then have ov: "tail_used w + sz \<ge> int P" by simp
  from pages_okD[OF assms] have lt: "hd (pages w) < length (page_objs w)"
    and eq: "pages w = [hd (pages w)..<length (page_objs w)]" by simp_all
  have "pages w @ [length (page_objs w)] = [hd (pages w)..<Suc (length (page_objs w))]"
    using lt eq by (metis less_or_eq_imp_le upt_Suc_append)
  then show ?thesis using lt
    by (simp only: alloc_overflow[OF assms ov] snd_conv)
       (intro pages_okI[where r = "hd (pages w)"], simp_all add: group_on_tail_def)
qed

lemma pages_ok_write_view:
  assumes "pages_ok w"
  shows "pages_ok (write_view v bs w)"
proof -
  have ne: "page_objs w \<noteq> []" using pages_okD(3)[OF assms] .
  have "finalSize (last ((page_objs w)[view_page v := (page_objs w ! view_page v)\<lparr>buffer := b\<rparr>])) =
        finalSize (last (page_objs w))" for b
    using ne by (cases "view_page v = length (page_objs w) - 1")
      (simp_all add: last_conv_nth nth_list_update)
  then show ?thesis
    using pages_okD[OF assms]
    by (intro pages_okI[where r = "hd (pages w)"])
       (simp_all add: write_view_def Let_def group_on_tail_def)
qed

lemma pages_ok_flush:
  "pages_ok w \<Longrightarrow> pages_ok (flushMutationGroup w)"
  by (simp add: flushMutationGroup_def pages_ok_def Let_def group_on_tail_def split: option.splits)

lemma freePages_keeps_tail:
  assumes "refs \<noteq> []" and "finalSize (objs ! last refs) = 0"
  shows "\<exists>k. k < length refs
          \<and> freePages objs ro refs pool =
               (None, drop k refs, rev (map (\<lambda>r. buffer (objs ! r)) (take k refs)) @ pool)
          \<and> (\<forall>r \<in> set (take k refs). finalSize (objs ! r) \<noteq> 0
                 \<and> global_headOffset (objs ! r) + finalSize (objs ! r) \<le> ro)"
  using assms
proof (induction refs arbitrary: pool)
  case Nil
  then show ?case by simp
next
  case (Cons r rs)
  show ?case
  proof (cases "finalSize (objs ! r) \<noteq> 0 \<and> ro \<ge> global_headOffset (objs ! r) + finalSize (objs ! r)")
    case False
    then have "freePages objs ro (r # rs) pool = (None, drop 0 (r # rs),
        rev (map (\<lambda>r. buffer (objs ! r)) (take 0 (r # rs))) @ pool)" by auto
    then show ?thesis by (intro exI[of _ 0]) simp
  next
    case True
    then have rs: "rs \<noteq> []" using Cons.prems by auto
    then have "finalSize (objs ! last rs) = 0" using Cons.prems by simp
    from Cons.IH[OF rs this, of "returnBuffer (buffer (objs ! r)) pool"]
    obtain k where k: "k < length rs"
      "freePages objs ro rs (returnBuffer (buffer (objs ! r)) pool) =
         (None, drop k rs, rev (map (\<lambda>r. buffer (objs ! r)) (take k rs)) @
            returnBuffer (buffer (objs ! r)) pool)"
      "\<forall>r \<in> set (take k rs). finalSize (objs ! r) \<noteq> 0
                 \<and> global_headOffset (objs ! r) + finalSize (objs ! r) \<le> ro"
      by blast
    show ?thesis using True k
      by (intro exI[of _ "Suc k"]) (simp add: returnBuffer_def)
  qed
qed

lemma pages_ok_tail_sealed:
  assumes "pages_ok w"
  shows "finalSize (page_objs w ! last (pages w)) = 0"
  using pages_okD[OF assms] by (simp add: last_conv_nth)

lemma freePages_pages_ok:
  assumes "pages_ok w"
  shows "\<exists>k pool'. k < length (pages w)
          \<and> freePages (page_objs w) ro (pages w) pool = (None, drop k (pages w), pool')"
  using freePages_keeps_tail[of "pages w" "page_objs w" ro pool] pages_okD(5)[OF assms]
    pages_ok_tail_sealed[OF assms]
  by blast

lemma pages_ok_drop:
  assumes "pages_ok w" and "k < length (pages w)"
  shows "pages_ok (w\<lparr>pages := drop k (pages w)\<rparr>)"
proof -
  from pages_okD[OF assms(1)] have lt: "hd (pages w) < length (page_objs w)"
    and eq: "pages w = [hd (pages w)..<length (page_objs w)]" by simp_all
  let ?r = "hd (pages w)" and ?n = "length (page_objs w)"
  have len: "length (pages w) = ?n - ?r" using eq by (metis length_upt)
  have d: "drop k (pages w) = [?r + k..<?n]" using eq by (metis drop_upt)
  have "?r + k < ?n" using assms(2) len by simp
  then show ?thesis using pages_okD[OF assms(1)] d
    by (intro pages_okI[where r = "?r + k"]) (simp_all add: group_on_tail_def)
qed

lemma pages_ok_fields:
  "pages_ok (w\<lparr>global_readOffset := a\<rparr>) = pages_ok w"
  "pages_ok (w\<lparr>port := b\<rparr>) = pages_ok w"
  "pages_ok (w\<lparr>connected := c\<rparr>) = pages_ok w"
  "pages_ok (w\<lparr>lastPongTime := d\<rparr>) = pages_ok w"
  "pages_ok (w\<lparr>tokenList := e\<rparr>) = pages_ok w"
  "pages_ok (w\<lparr>deleteBlockQueue := f\<rparr>) = pages_ok w"
  "pages_ok (w\<lparr>destroyFnCallback := g\<rparr>) = pages_ok w"
  by (simp_all add: pages_ok_def group_on_tail_def)

lemma pages_ok_registerReadOffset:
  assumes "pages_ok w"
  shows "pages_ok (snd (snd (registerReadOffset ro (pool, w))))"
proof (cases "ro < global_readOffset w")
  case True
  then show ?thesis using assms by (simp add: registerReadOffset_def)
next
  case False
  obtain k pool' where k: "k < length (pages w)"
    and f: "freePages (page_objs w) ro (pages w) pool = (None, drop k (pages w), pool')"
    using freePages_pages_ok[OF assms] by blast
  have "w\<lparr>global_readOffset := ro, pages := drop k (pages w)\<rparr>
        = (w\<lparr>pages := drop k (pages w)\<rparr>)\<lparr>global_readOffset := ro\<rparr>" by simp
  then have "pages_ok (w\<lparr>global_readOffset := ro, pages := drop k (pages w)\<rparr>)"
    using pages_ok_drop[OF assms k] by (simp only: pages_ok_fields)
  then show ?thesis using False f by (simp add: registerReadOffset_def)
qed

lemma pages_ok_alloc_write:
  assumes "pages_ok (snd s)" and "allocCommandBuffer P sz s = (v, (pool, w))"
  shows "pages_ok (write_view v bs w)"
proof -
  have "pages_ok (snd (snd (allocCommandBuffer P sz (fst s, snd s))))"
    using assms(1) by (rule pages_ok_alloc)
  then have "pages_ok w" using assms(2) by simp
  then show ?thesis by (rule pages_ok_write_view)
qed

lemma pages_ok_writeCommand:
  assumes "pages_ok (snd s)"
  shows "pages_ok (snd (snd (writeCommand P bs s)))"
  using pages_ok_alloc_write[OF assms]
  by (simp add: writeCommand_def split: prod.splits)

lemma pages_ok_streamModifyToken:
  assumes "pages_ok (snd s)"
  shows "pages_ok (snd (snd (streamModifyToken P k s)))"
  using pages_ok_alloc_write[OF assms]
  by (simp add: streamModifyToken_def Let_def split: prod.splits)

lemma pages_ok_registerAttrKey:
  assumes "pages_ok (snd s)"
  shows "pages_ok (snd (snd (registerAttrKey P k s)))"
proof -
  obtain pool w where s: "s = (pool, w)" by (cases s)
  let ?s1 = "(pool, w\<lparr>tokenList := AList.update k (length (tokenList w)) (tokenList w)\<rparr>)"
  have "pages_ok (snd ?s1)"
    using assms s by (simp add: pages_ok_fields)
  then have "pages_ok (snd (snd (streamModifyToken P k ?s1)))"
    by (rule pages_ok_streamModifyToken)
  then show ?thesis
    using assms s
    by (cases "streamModifyToken P k ?s1"; cases "fst (streamModifyToken P k ?s1)")
       (auto simp: registerAttrKey_def Let_def)
qed

lemma registerStyleKey_eq: "registerStyleKey = registerAttrKey"
  by (intro ext) (simp add: registerStyleKey_def registerAttrKey_def)

lemma pages_ok_flushBlockDeleteQueue:
  assumes "pages_ok (snd s)"
  shows "pages_ok (snd (snd (flushBlockDeleteQueue P s)))"
  using pages_ok_alloc_write[OF assms] assms
  by (auto simp: flushBlockDeleteQueue_def pages_ok_fields split: prod.splits)

lemma pages_ok_handleBlockCleanup:
  assumes "pages_ok (snd s)"
  shows "pages_ok (snd (snd (handleBlockCleanup P b s)))"
  using pages_ok_flushBlockDeleteQueue[OF assms, of P] assms
  by (cases "flushBlockDeleteQueue P s"; cases "fst (flushBlockDeleteQueue P s)"; cases s)
     (auto simp: handleBlockCleanup_def pages_ok_fields)

lemma pages_ok_restream:
  "pages_ok w \<Longrightarrow> pages_ok (snd (restreamUnreadPages w))"
  by (simp add: restreamUnreadPages_def pages_ok_fields split: prod.splits)

lemma pages_ok_registerPong:
  assumes "pages_ok (snd s)"
  shows "pages_ok (snd (snd (registerPong now ro s)))"
proof -
  obtain pool w where s: "s = (pool, w)" by (cases s)
  have "pages_ok (w\<lparr>lastPongTime := now, connected := True\<rparr>)"
    using assms s by (simp add: pages_ok_fields)
  from pages_ok_registerReadOffset[OF this] show ?thesis
    using s by (simp add: registerPong_def)
qed

lemma pages_ok_reconnect:
  assumes "pages_ok (snd s)"
  shows "pages_ok (snd (snd (reconnect prt now ro s)))"
proof -
  obtain pool w where s: "s = (pool, w)" by (cases s)
  let ?w1 = "w\<lparr>port := prt, connected := True, lastPongTime := now\<rparr>"
  obtain e pool1 w1 where r: "registerReadOffset ro (pool, ?w1) = (e, (pool1, w1))"
    by (metis prod.exhaust)
  have "pages_ok ?w1"
    using assms s by (simp add: pages_ok_fields)
  from pages_ok_registerReadOffset[OF this, of ro pool] have w1: "pages_ok w1"
    using r by simp
  then have "pages_ok (snd (restreamUnreadPages w1))" by (rule pages_ok_restream)
  then show ?thesis
    using s r w1
    by (cases e; cases "restreamUnreadPages w1") (simp_all add: reconnect_def)
qed

lemma pages_ok_perform:
  assumes "pages_ok (snd s)"
  shows "pages_ok (snd (perform P a s))"
  using assms
  by (cases a)
     (simp_all add: pages_ok_writeCommand pages_ok_registerAttrKey registerStyleKey_eq
        pages_ok_handleBlockCleanup pages_ok_flushBlockDeleteQueue pages_ok_flush
        pages_ok_registerPong pages_ok_reconnect disconnect_def pages_ok_fields)

lemma alloc_blank:
  assumes "blank w"
  shows "pages_ok (snd (snd (allocCommandBuffer P sz (pool, w))))"
  by (simp add: allocCommandBuffer_def openMutationGroup_blank[OF assms] Let_def
      allocPage_def flushMutationGroup_def pages_ok_def group_on_tail_def
      split: prod.splits)

lemma pages_ok_new_window:
  "pages_ok (snd (snd (new_window P now wid prt pool)))"
proof -
  let ?w = "\<lparr>window_id = wid, port = prt, destroyFnCallback = None,
                     connected = True, page_objs = [], pages = [],
                     global_readOffset = 0, global_writeOffset = 0, mutationGroup = None,
                     deleteBlockQueue = [], tokenList = [], lastPongTime = 0\<rparr>"
  obtain v pool1 w1 where a: "allocCommandBuffer P (1 + 21) (pool, ?w) = (v, (pool1, w1))"
    by (metis prod.exhaust)
  have "blank ?w" by (simp add: blank_def)
  from alloc_blank[OF this, of P "1 + 21" pool] have "pages_ok w1" using a by simp
  then have "pages_ok (write_view v bs w1)" for bs by (rule pages_ok_write_view)
  then show ?thesis
    using a by (simp add: new_window_def streamInitWindow_def pages_ok_fields)
qed

lemma offsets_ok_fields:
  "offsets_ok (w\<lparr>global_readOffset := a\<rparr>) = offsets_ok w"
  "offsets_ok (w\<lparr>port := b\<rparr>) = offsets_ok w"
  "offsets_ok (w\<lparr>connected := c\<rparr>) = offsets_ok w"
  "offsets_ok (w\<lparr>lastPongTime := d\<rparr>) = offsets_ok w"
  "offsets_ok (w\<lparr>tokenList := e\<rparr>) = offsets_ok w"
  "offsets_ok (w\<lparr>deleteBlockQueue := f\<rparr>) = offsets_ok w"
  "offsets_ok (w\<lparr>destroyFnCallback := g\<rparr>) = offsets_ok w"
  "offsets_ok (w\<lparr>pages := h\<rparr>) = offsets_ok w"
  "offsets_ok (w\<lparr>mutationGroup := i\<rparr>) = offsets_ok w"
  by (simp_all add: offsets_ok_def)

lemma offsets_ok_alloc:
  assumes "pages_ok w" and "offsets_ok w" and "0 \<le> sz"
  shows "offsets_ok (snd (snd (allocCommandBuffer P sz (pool, w))))"
proof (cases "tail_used w + sz < int P")
  case True
  show ?thesis using assms(2,3)
    by (auto simp: alloc_fits[OF assms(1) True] offsets_ok_def list_all_iff)
next
  case False
  then have ov: "tail_used w + sz \<ge> int P" by simp
  have t: "tail_ref w < length (page_objs w)"
    using pages_okD(3)[OF assms(1)] by (simp add: tail_ref_def)
  then have "page_objs w ! tail_ref w \<in> set (page_objs w)" by simp
  then have h: "global_headOffset (page_objs w ! tail_ref w) \<le> global_writeOffset w"
    using assms(2) by (simp add: offsets_ok_def list_all_iff)
  then have "0 \<le> tail_used w"
    and "global_headOffset (page_objs w ! tail_ref w) \<le> global_writeOffset w + sz"
    using assms(3) by (simp_all add: tail_used_def)
  then show ?thesis using assms(2,3) t
    by (auto simp: alloc_overflow[OF assms(1) ov] offsets_ok_def list_all_iff
        dest!: set_update_subset_insert[THEN subsetD])
qed

lemma offsets_ok_write_view:
  assumes "offsets_ok w"
  shows "offsets_ok (write_view v bs w)"
proof (cases "view_page v < length (page_objs w)")
  case True
  then have "page_objs w ! view_page v \<in> set (page_objs w)" by simp
  then show ?thesis using assms
    by (auto simp: write_view_def Let_def offsets_ok_def list_all_iff
        dest!: set_update_subset_insert[THEN subsetD])
next
  case False
  then show ?thesis using assms
    by (simp add: write_view_def Let_def offsets_ok_def list_update_beyond)
qed

lemma live_ok_alloc_write:
  assumes "live_ok (snd s)" and "0 \<le> sz" and "allocCommandBuffer P sz s = (v, (pool, w))"
  shows "live_ok (write_view v bs w)"
proof -
  from assms(1) have p: "pages_ok (snd s)" and q: "offsets_ok (snd s)" 
    by (simp_all add: live_ok_def)
  have "offsets_ok (snd (snd (allocCommandBuffer P sz (fst s, snd s))))"
    using p q assms(2) by (rule offsets_ok_alloc)
  then have "offsets_ok w" using assms(3) by simp
  then have "offsets_ok (write_view v bs w)" by (rule offsets_ok_write_view)
  then show ?thesis using pages_ok_alloc_write[OF p assms(3)] by (simp add: live_ok_def)
qed

lemma live_ok_fields:
  "live_ok (w\<lparr>global_readOffset := a\<rparr>) = live_ok w"
  "live_ok (w\<lparr>port := b\<rparr>) = live_ok w"
  "live_ok (w\<lparr>connected := c\<rparr>) = live_ok w"
  "live_ok (w\<lparr>lastPongTime := d\<rparr>) = live_ok w"
  "live_ok (w\<lparr>tokenList := e\<rparr>) = live_ok w"
  "live_ok (w\<lparr>deleteBlockQueue := f\<rparr>) = live_ok w"
  "live_ok (w\<lparr>destroyFnCallback := g\<rparr>) = live_ok w"
  by (simp_all add: live_ok_def pages_ok_fields offsets_ok_fields)

lemma live_ok_writeCommand:
  assumes "live_ok (snd s)"
  shows "live_ok (snd (snd (writeCommand P bs s)))"
  using live_ok_alloc_write[OF assms, of "int (length bs)" P]
  by (cases "allocCommandBuffer P (int (length bs)) s") (auto simp: writeCommand_def)

lemma live_ok_streamModifyToken:
  assumes "live_ok (snd s)"
  shows "live_ok (snd (snd (streamModifyToken P k s)))"
  using live_ok_alloc_write[OF assms, of "1 + 1 + int (length (bytes_of k)) + 1" P]
  by (cases "allocCommandBuffer P (1 + 1 + int (length (bytes_of k)) + 1) s")
     (auto simp: streamModifyToken_def Let_def)

lemma live_ok_registerAttrKey:
  assumes "live_ok (snd s)"
  shows "live_ok (snd (snd (registerAttrKey P k s)))"
proof -
  obtain pool w where s: "s = (pool, w)" by (cases s)
  let ?s1 = "(pool, w\<lparr>tokenList := AList.update k (length (tokenList w)) (tokenList w)\<rparr>)"
  have "live_ok (snd ?s1)"
    using assms s by (simp add: live_ok_fields)
  then have "live_ok (snd (snd (streamModifyToken P k ?s1)))"
    by (rule live_ok_streamModifyToken)
  then show ?thesis
    using assms s
    by (cases "streamModifyToken P k ?s1"; cases "fst (streamModifyToken P k ?s1)")
       (auto simp: registerAttrKey_def Let_def)
qed

lemma live_ok_flushBlockDeleteQueue:
  assumes "live_ok (snd s)"
  shows "live_ok (snd (snd (flushBlockDeleteQueue P s)))"
proof -
  obtain pool w where s: "s = (pool, w)" by (cases s)
  let ?sz = "1 + 2 * int (length (deleteBlockQueue w)) + 2"
  show ?thesis
    using live_ok_alloc_write[OF assms, of ?sz P] assms s
    by (cases "allocCommandBuffer P ?sz s")
       (auto simp: flushBlockDeleteQueue_def live_ok_fields)
qed

lemma live_ok_handleBlockCleanup:
  assumes "live_ok (snd s)"
  shows "live_ok (snd (snd (handleBlockCleanup P b s)))"
  using live_ok_flushBlockDeleteQueue[OF assms, of P] assms
  by (cases "flushBlockDeleteQueue P s"; cases "fst (flushBlockDeleteQueue P s)"; cases s)
     (auto simp: handleBlockCleanup_def live_ok_fields)

lemma offsets_ok_flush:
  "offsets_ok w \<Longrightarrow> offsets_ok (flushMutationGroup w)"
  by (simp add: flushMutationGroup_def Let_def offsets_ok_def split: option.splits)

lemma live_ok_flush:
  "live_ok w \<Longrightarrow> live_ok (flushMutationGroup w)"
  by (simp add: live_ok_def pages_ok_flush offsets_ok_flush)

lemma live_ok_registerReadOffset:
  assumes "live_ok w"
  shows "live_ok (snd (snd (registerReadOffset ro (pool, w))))"
proof -
  have "offsets_ok (snd (snd (registerReadOffset ro (pool, w))))"
    using assms
    by (cases "freePages (page_objs w) ro (pages w) pool")
       (auto simp: registerReadOffset_def live_ok_def offsets_ok_def)
  then show ?thesis
    using assms pages_ok_registerReadOffset[of w ro pool] by (simp add: live_ok_def)
qed

lemma live_ok_restream:
  "live_ok w \<Longrightarrow> live_ok (snd (restreamUnreadPages w))"
  by (cases "restreamPages (page_objs w) (global_writeOffset w) (pages w) (global_readOffset w)")
     (simp add: restreamUnreadPages_def live_ok_fields)

lemma live_ok_registerPong:
  assumes "live_ok (snd s)"
  shows "live_ok (snd (snd (registerPong now ro s)))"
proof -
  obtain pool w where s: "s = (pool, w)" by (cases s)
  have "live_ok (w\<lparr>lastPongTime := now, connected := True\<rparr>)"
    using assms s by (simp add: live_ok_fields)
  from live_ok_registerReadOffset[OF this] show ?thesis
    using s by (simp add: registerPong_def)
qed

lemma live_ok_reconnect:
  assumes "live_ok (snd s)"
  shows "live_ok (snd (snd (reconnect prt now ro s)))"
proof -
  obtain pool w where s: "s = (pool, w)" by (cases s)
  let ?w1 = "w\<lparr>port := prt, connected := True, lastPongTime := now\<rparr>"
  obtain e pool1 w1 where r: "registerReadOffset ro (pool, ?w1) = (e, (pool1, w1))"
    by (metis prod.exhaust)
  have "live_ok ?w1"
    using assms s by (simp add: live_ok_fields)
  from live_ok_registerReadOffset[OF this, of ro pool] have w1: "live_ok w1"
    using r by simp
  then have "live_ok (snd (restreamUnreadPages w1))" by (rule live_ok_restream)
  then show ?thesis
    using s r w1
    by (cases e; cases "restreamUnreadPages w1") (simp_all add: reconnect_def)
qed

lemma live_ok_perform:
  assumes "live_ok (snd s)"
  shows "live_ok (snd (perform P a s))"
  using assms
  by (cases a)
     (simp_all add: live_ok_writeCommand live_ok_registerAttrKey registerStyleKey_eq
        live_ok_handleBlockCleanup live_ok_flushBlockDeleteQueue live_ok_flush
        live_ok_registerPong live_ok_reconnect disconnect_def live_ok_fields)

lemma live_ok_run:
  "live_ok (snd s) \<Longrightarrow> live_ok (snd (run P acts s))"
  unfolding run_def
  by (induction acts arbitrary: s) (simp_all add: live_ok_perform)

lemma offsets_ok_alloc_blank:
  assumes "blank w" and "0 \<le> sz"
  shows "offsets_ok (snd (snd (allocCommandBuffer P sz (pool, w))))"
  using assms(2)
  by (simp add: allocCommandBuffer_def openMutationGroup_blank[OF assms(1)] Let_def
      allocPage_def flushMutationGroup_def offsets_ok_def
      split: prod.splits)

lemma live_ok_new_window:
  "live_ok (snd (snd (new_window P now wid prt pool)))"
proof -
  let ?w = "\<lparr>window_id = wid, port = prt, destroyFnCallback = None,
                     connected = True, page_objs = [], pages = [],
                     global_readOffset = 0, global_writeOffset = 0, mutationGroup = None,
                     deleteBlockQueue = [], tokenList = [], lastPongTime = 0\<rparr>"
  obtain v pool1 w1 where a: "allocCommandBuffer P (1 + 21) (pool, ?w) = (v, (pool1, w1))"
    by (metis prod.exhaust)
  have b: "blank ?w" by (simp add: blank_def)
  from offsets_ok_alloc_blank[OF b, of "1 + 21" P pool] have "offsets_ok w1" using a by simp
  then have "offsets_ok (write_view v bs w1)" for bs by (rule offsets_ok_write_view)
  then have "offsets_ok (snd (snd (new_window P now wid prt pool)))"
    using a by (simp add: new_window_def streamInitWindow_def offsets_ok_fields)
  then show ?thesis using pages_ok_new_window[of P now wid prt pool] by (simp add: live_ok_def)
qed

lemma live_ok_reachable:
  "live_ok (snd (run P acts (snd (new_window P now wid prt pool))))"
  by (rule live_ok_run) (rule live_ok_new_window)

lemma allocPage_readOffset:
  "global_readOffset (snd (snd (allocPage P h s))) = global_readOffset (snd s)"
  by (cases s) (simp add: allocPage_def split: prod.splits)

lemma openMutationGroup_readOffset:
  "global_readOffset (snd (snd (openMutationGroup P s))) = global_readOffset (snd s)"
proof -
  obtain pool w where s: "s = (pool, w)" by (cases s)
  show ?thesis
  proof (cases "mutationGroup w")
    case (Some mg)
    then show ?thesis using s by (simp add: openMutationGroup_def)
  next
    case None
    show ?thesis
    proof (cases "length (pages w) = 0")
      case True
      obtain r pool1 w1 where a: "allocPage P (global_writeOffset w) (pool, w) = (r, (pool1, w1))"
        by (metis prod.exhaust)
      with allocPage_readOffset[of P "global_writeOffset w" "(pool, w)"]
      show ?thesis using s None True by (simp add: openMutationGroup_def Let_def)
    next
      case False
      then show ?thesis using s None by (simp add: openMutationGroup_def Let_def)
    qed
  qed
qed

lemma flush_readOffset:
  "global_readOffset (flushMutationGroup w) = global_readOffset w"
  by (simp add: flushMutationGroup_def Let_def split: option.splits)

lemma alloc_readOffset:
  "global_readOffset (snd (snd (allocCommandBuffer P sz s))) = global_readOffset (snd s)"
proof -
  obtain mg pool1 w1 where o: "openMutationGroup P s = (mg, (pool1, w1))"
    by (metis prod.exhaust)
  with openMutationGroup_readOffset[of P s]
  have w1: "global_readOffset w1 = global_readOffset (snd s)" by simp
  let ?cpo = "global_writeOffset w1 - global_headOffset (page_objs w1 ! mg_page mg)"
  let ?w3 = "flushMutationGroup (w1\<lparr>page_objs := (page_objs w1)
                          [mg_page mg := (page_objs w1 ! mg_page mg)\<lparr>finalSize := ?cpo\<rparr>]\<rparr>)"
  obtain r pool4 w4 where a: "allocPage P (global_writeOffset ?w3) (pool1, ?w3) = (r, (pool4, w4))"
    by (metis prod.exhaust)
  with allocPage_readOffset[of P "global_writeOffset ?w3" "(pool1, ?w3)"]
  have "global_readOffset w4 = global_readOffset (snd s)"
    using w1 by (simp add: flush_readOffset)
  then show ?thesis
    using o a w1 by (simp add: allocCommandBuffer_def Let_def)
qed

lemma write_view_readOffset:
  "global_readOffset (write_view v bs w) = global_readOffset w"
  by (simp add: write_view_def Let_def)

lemma writeCommand_readOffset:
  "global_readOffset (snd (snd (writeCommand P bs s))) = global_readOffset (snd s)"
  using alloc_readOffset[of P "int (length bs)" s]
  by (cases "allocCommandBuffer P (int (length bs)) s")
     (auto simp: writeCommand_def write_view_readOffset)

lemma streamModifyToken_readOffset:
  "global_readOffset (snd (snd (streamModifyToken P k s))) = global_readOffset (snd s)"
  using alloc_readOffset[of P "1 + 1 + int (length (bytes_of k)) + 1" s]
  by (cases "allocCommandBuffer P (1 + 1 + int (length (bytes_of k)) + 1) s")
     (auto simp: streamModifyToken_def Let_def write_view_readOffset)

lemma registerAttrKey_readOffset:
  "global_readOffset (snd (snd (registerAttrKey P k s))) = global_readOffset (snd s)"
proof -
  obtain pool w where s: "s = (pool, w)" by (cases s)
  let ?s1 = "(pool, w\<lparr>tokenList := AList.update k (length (tokenList w)) (tokenList w)\<rparr>)"
  show ?thesis
    using s streamModifyToken_readOffset[of P k ?s1]
    by (cases "streamModifyToken P k ?s1"; cases "fst (streamModifyToken P k ?s1)")
       (auto simp: registerAttrKey_def Let_def)
qed

lemma flushBlockDeleteQueue_readOffset:
  "global_readOffset (snd (snd (flushBlockDeleteQueue P s))) = global_readOffset (snd s)"
proof -
  obtain pool w where s: "s = (pool, w)" by (cases s)
  let ?sz = "1 + 2 * int (length (deleteBlockQueue w)) + 2"
  show ?thesis
    using alloc_readOffset[of P ?sz s] s
    by (cases "allocCommandBuffer P ?sz s")
       (auto simp: flushBlockDeleteQueue_def write_view_readOffset)
qed

lemma handleBlockCleanup_readOffset:
  "global_readOffset (snd (snd (handleBlockCleanup P b s))) = global_readOffset (snd s)"
  using flushBlockDeleteQueue_readOffset[of P s]
  by (cases "flushBlockDeleteQueue P s"; cases "fst (flushBlockDeleteQueue P s)"; cases s)
     (auto simp: handleBlockCleanup_def)

lemma registerReadOffset_mono:
  "global_readOffset w \<le> global_readOffset (snd (snd (registerReadOffset ro (pool, w))))"
  by (cases "freePages (page_objs w) ro (pages w) pool")
     (auto simp: registerReadOffset_def)

lemma restream_readOffset:
  "global_readOffset (snd (restreamUnreadPages w)) = global_readOffset w"
  by (cases "restreamPages (page_objs w) (global_writeOffset w) (pages w) (global_readOffset w)")
     (simp add: restreamUnreadPages_def)

lemma reconnect_mono:
  "global_readOffset (snd s) \<le> global_readOffset (snd (snd (reconnect prt now ro s)))"
proof -
  obtain pool w where s: "s = (pool, w)" by (cases s)
  let ?w1 = "w\<lparr>port := prt, connected := True, lastPongTime := now\<rparr>"
  obtain e pool1 w1 where r: "registerReadOffset ro (pool, ?w1) = (e, (pool1, w1))"
    by (metis prod.exhaust)
  from registerReadOffset_mono[of ?w1 ro pool] have "global_readOffset w \<le> global_readOffset w1"
    using r by simp
  then show ?thesis
    using s r restream_readOffset[of w1]
    by (cases e; cases "restreamUnreadPages w1") (simp_all add: reconnect_def)
qed

lemma perform_mono:
  "global_readOffset (snd s) \<le> global_readOffset (snd (perform P a s))"
proof (cases a)
  case (RegisterPong now ro)
  obtain pool w where s: "s = (pool, w)" by (cases s)
  show ?thesis
    using RegisterPong s
      registerReadOffset_mono[of "w\<lparr>lastPongTime := now, connected := True\<rparr>" ro pool]
    by (simp add: registerPong_def)
qed (simp_all add: writeCommand_readOffset registerAttrKey_readOffset registerStyleKey_eq
      handleBlockCleanup_readOffset flushBlockDeleteQueue_readOffset reconnect_mono
      flushMutationGroup_def disconnect_def Let_def split: option.splits)

lemma run_mono:
  "global_readOffset (snd s) \<le> global_readOffset (snd (run P acts s))"
  unfolding run_def
proof (induction acts arbitrary: s)
  case Nil
  show ?case by simp
next
  case (Cons a acts)
  have "global_readOffset (snd s) \<le> global_readOffset (snd (perform P a s))"
    by (rule perform_mono)
  also have "\<dots> \<le> global_readOffset (snd (foldl (\<lambda>s a. perform P a s) (perform P a s) acts))"
    by (rule Cons.IH)
  finally show ?case by simp
qed

text \<open>
  Claim C9. From construction onward, after any sequence of calls, the array \<open>pages\<close> is
  not empty and its last page has \<open>finalSize = 0\<close>; so the loop of
  \<open>registerReadOffset\<close> never reads \<open>pages[0]\<close> of an empty array (no TypeError), and it
  stops with the last page still in the array. \<open>_allocCommandBuffer\<close>, the one place
  that assigns \<open>finalSize\<close>, leaves the page objects as they are when the bytes fit the
  last page, and otherwise sets \<open>finalSize\<close> of the last page to the bytes it holds and
  appends a new page with \<open>finalSize = 0\<close>.
\<close>

theorem tail_page_stays_active:
  "case run P acts (snd (new_window P now wid prt pool0)) of (pool, w) \<Rightarrow>
     pages w \<noteq> [] \<and> finalSize (page_objs w ! last (pages w)) = 0
     \<and> (case freePages (page_objs w) ro (pages w) pool of
          (err, pgs, pool') \<Rightarrow> err = None \<and> pgs \<noteq> [] \<and> last pgs = last (pages w))
     \<and> (case allocCommandBuffer P sz (pool, w) of
          (v, (pool', w')) \<Rightarrow>
            (if tail_used w + sz < int P
             then page_objs w' = page_objs w \<and> pages w' = pages w
             else pages w' = pages w @ [length (page_objs w)]
                  \<and> take (length (page_objs w)) (page_objs w')
                      = (page_objs w)[last (pages w) :=
                           (page_objs w ! last (pages w))\<lparr>finalSize := tail_used w\<rparr>]
                  \<and> finalSize (page_objs w' ! length (page_objs w)) = 0))"
proof -
  obtain pool w where r: "run P acts (snd (new_window P now wid prt pool0)) = (pool, w)"
    by (metis prod.exhaust)
  have "live_ok (snd (run P acts (snd (new_window P now wid prt pool0))))"
    by (rule live_ok_reachable)
  then have ok: "pages_ok w" using r by (simp add: live_ok_def)
  obtain k pool' where k: "k < length (pages w)"
    and f: "freePages (page_objs w) ro (pages w) pool = (None, drop k (pages w), pool')"
    using freePages_pages_ok[OF ok] by blast
  have lp: "last (pages w) = tail_ref w" using pages_okD(4)[OF ok] by (simp add: tail_ref_def)
  have a: "case allocCommandBuffer P sz (pool, w) of
          (v, (pool', w')) \<Rightarrow>
            (if tail_used w + sz < int P
             then page_objs w' = page_objs w \<and> pages w' = pages w
             else pages w' = pages w @ [length (page_objs w)]
                  \<and> take (length (page_objs w)) (page_objs w')
                      = (page_objs w)[last (pages w) :=
                           (page_objs w ! last (pages w))\<lparr>finalSize := tail_used w\<rparr>]
                  \<and> finalSize (page_objs w' ! length (page_objs w)) = 0)"
  proof (cases "tail_used w + sz < int P")
    case True
    then show ?thesis by (simp add: alloc_fits[OF ok True])
  next
    case False
    then have ov: "tail_used w + sz \<ge> int P" by simp
    show ?thesis using False lp by (simp add: alloc_overflow[OF ok ov] nth_append)
  qed
  show ?thesis
    using r f k a pages_okD(5)[OF ok] pages_ok_tail_sealed[OF ok] by simp
qed

text \<open>
  Claim C3. On every window reached from the constructor, \<open>registerReadOffset\<close> raises an
  error exactly when the new offset is below \<open>global_readOffset\<close>, and then leaves the
  pool and the window as they were; otherwise \<open>global_readOffset\<close> becomes the new
  offset. No later sequence of calls makes \<open>global_readOffset\<close> smaller.
\<close>

theorem registerReadOffset_never_decreases:
  "case run P acts (snd (new_window P now wid prt pool0)) of (pool, w) \<Rightarrow>
     (case registerReadOffset newOffset (pool, w) of (err, s') \<Rightarrow>
        (err \<noteq> None) = (newOffset < global_readOffset w)
        \<and> (if newOffset < global_readOffset w then s' = (pool, w)
            else global_readOffset (snd s') = newOffset)
        \<and> global_readOffset w \<le> global_readOffset (snd s'))
     \<and> global_readOffset w \<le> global_readOffset (snd (run P later (pool, w)))"
proof -
  obtain pool w where r: "run P acts (snd (new_window P now wid prt pool0)) = (pool, w)"
    by (metis prod.exhaust)
  have "live_ok (snd (run P acts (snd (new_window P now wid prt pool0))))"
    by (rule live_ok_reachable)
  then have ok: "pages_ok w" using r by (simp add: live_ok_def)
  obtain k pool' where k: "k < length (pages w)"
    and f: "freePages (page_objs w) newOffset (pages w) pool = (None, drop k (pages w), pool')"
    using freePages_pages_ok[OF ok] by blast
  have "global_readOffset (snd (pool, w)) \<le> global_readOffset (snd (run P later (pool, w)))"
    by (rule run_mono)
  then show ?thesis
    using r f by (simp add: registerReadOffset_def)
qed

text \<open>
  Claim C4. On every window reached from the constructor, \<open>registerReadOffset\<close> hands to
  the pool the buffers of the first \<open>k\<close> pages of the array, each of them sealed
  (\<open>finalSize > 0\<close>) and fully acknowledged (\<open>headOffset + finalSize \<le> readOffset\<close>), and
  nothing else; the page objects are unchanged and the last page, the write target, stays.
\<close>

theorem pages_returned_only_when_acknowledged:
  "case run P acts (snd (new_window P now wid prt pool0)) of (pool, w) \<Rightarrow>
     (case registerReadOffset readOffset (pool, w) of (err, (pool', w')) \<Rightarrow>
        (\<exists>k < length (pages w).
            pages w' = drop k (pages w)
            \<and> pool' = rev (map (\<lambda>r. buffer (page_objs w ! r)) (take k (pages w))) @ pool
            \<and> (\<forall>r \<in> set (take k (pages w)).
                   0 < finalSize (page_objs w ! r)
                   \<and> global_headOffset (page_objs w ! r) + finalSize (page_objs w ! r)
                       \<le> readOffset))
        \<and> page_objs w' = page_objs w \<and> last (pages w') = last (pages w))"
proof -
  obtain pool w where r: "run P acts (snd (new_window P now wid prt pool0)) = (pool, w)"
    by (metis prod.exhaust)
  have "live_ok (snd (run P acts (snd (new_window P now wid prt pool0))))"
    by (rule live_ok_reachable)
  then have ok: "pages_ok w" and off: "offsets_ok w" using r by (simp_all add: live_ok_def)
  have ne: "pages w \<noteq> []" using pages_okD(5)[OF ok] .
  obtain k where k: "k < length (pages w)"
    and f: "freePages (page_objs w) readOffset (pages w) pool =
              (None, drop k (pages w),
               rev (map (\<lambda>r. buffer (page_objs w ! r)) (take k (pages w))) @ pool)"
    and a: "\<forall>r \<in> set (take k (pages w)). finalSize (page_objs w ! r) \<noteq> 0
              \<and> global_headOffset (page_objs w ! r) + finalSize (page_objs w ! r) \<le> readOffset"
    using freePages_keeps_tail[OF ne pages_ok_tail_sealed[OF ok], of readOffset pool] by blast
  have valid: "r < length (page_objs w)" if "r \<in> set (pages w)" for r
  proof -
    from that pages_okD(2)[OF ok] have "r \<in> set [hd (pages w)..<length (page_objs w)]" by simp
    then show ?thesis by simp
  qed
  have pos: "0 < finalSize (page_objs w ! r)" if "r \<in> set (take k (pages w))" for r
  proof -
    from that have "r \<in> set (pages w)" by (rule in_set_takeD)
    then have "page_objs w ! r \<in> set (page_objs w)" using valid by simp
    then have "0 \<le> finalSize (page_objs w ! r)"
      using off by (simp add: offsets_ok_def list_all_iff)
    moreover have "finalSize (page_objs w ! r) \<noteq> 0" using a that by simp
    ultimately show ?thesis by simp
  qed
  show ?thesis
  proof (cases "readOffset < global_readOffset w")
    case True
    then show ?thesis
      using r ne by (auto simp: registerReadOffset_def intro!: exI[of _ 0])
  next
    case False
    then show ?thesis
      using r f k a pos by (auto simp: registerReadOffset_def intro!: exI[of _ k])
  qed
qed

theorem pages_returned_only_when_acknowledged_witness:
  "0 < finalSize (page_objs (snd (run 32 [Command [1,2,3,4,5], Command [6,7,8,9,10,11]]
                                    (snd (new_window 32 0 ''w'' [] [])))) ! 0)
   \<and> global_headOffset (page_objs (snd (run 32 [Command [1,2,3,4,5], Command [6,7,8,9,10,11]]
                                    (snd (new_window 32 0 ''w'' [] [])))) ! 0)
      + finalSize (page_objs (snd (run 32 [Command [1,2,3,4,5], Command [6,7,8,9,10,11]]
                                    (snd (new_window 32 0 ''w'' [] [])))) ! 0) \<le> 27
   \<and> pages (snd (snd (registerReadOffset 27 (run 32 [Command [1,2,3,4,5], Command [6,7,8,9,10,11]]
                                    (snd (new_window 32 0 ''w'' [] [])))))) = [1]"
proof -
  let ?S = "run 32 [Command [1,2,3,4,5], Command [6,7,8,9,10,11]] (snd (new_window 32 0 ''w'' [] []))"
  obtain pool w where S: "?S = (pool, w)" by (metis prod.exhaust)
  obtain err pool' w' where R: "registerReadOffset 27 (pool, w) = (err, (pool', w'))"
    by (metis prod.exhaust)
  have p: "pages (snd ?S) = [0, 1]" by code_simp
  have p': "pages (snd (snd (registerReadOffset 27 ?S))) = [1]" by code_simp
  from pages_returned_only_when_acknowledged[where P = 32
      and acts = "[Command [1,2,3,4,5], Command [6,7,8,9,10,11]]"
      and now = 0 and wid = "''w''" and prt = "[]" and ?pool0.0 = "[]" and readOffset = 27]
  obtain k where k: "pages w' = drop k (pages w)"
    "\<forall>r \<in> set (take k (pages w)). 0 < finalSize (page_objs w ! r)
        \<and> global_headOffset (page_objs w ! r) + finalSize (page_objs w ! r) \<le> 27"
    using S R by auto
  from p S have pw: "pages w = [0, 1]" by simp
  from p' S R have pw': "pages w' = [1]" by simp
  have "k = 1"
  proof (rule ccontr)
    assume "k \<noteq> 1"
    then have "k = 0 \<or> 2 \<le> k" by arith
    then show False using k(1) pw pw' by auto
  qed
  then have "0 < finalSize (page_objs w ! 0)
     \<and> global_headOffset (page_objs w ! 0) + finalSize (page_objs w ! 0) \<le> 27"
    using k(2) pw by simp
  then show ?thesis using S R pw' by simp
qed

section \<open>The window manager: rate limit, sweep, unknown sessions\<close>

lemma consumeSync_bucket:
  assumes "map_of lim k = Some (n, e)" and "now < e"
  shows "consumeSync 8 2 now k lim =
           (if n > 0 then (True, AList.update k (n - 1, e) lim)
            else (False, AList.update k (n, e) lim))"
  using assms by (simp add: consumeSync_def)

lemma consumeSync_fresh:
  assumes "map_of lim k = None"
  shows "consumeSync 8 2 now k lim = (True, AList.update k (7, now + 2000) lim)"
  using assms by (simp add: consumeSync_def)

lemma enqueue_within_interval:
  assumes "map_of (messageLimiter m) k = Some (n, e)"
    and "\<forall>a \<in> set arrivals. fst a < e"
  shows "queue (enqueueMessages k arrivals m)
           = queue m @ map (\<lambda>a. (k, snd a)) (take n arrivals)
       \<and> windowMap (enqueueMessages k arrivals m) = windowMap m"
  using assms
proof (induction arrivals arbitrary: m n)
  case Nil
  show ?case by (simp add: enqueueMessages_def)
next
  case (Cons a arrivals)
  obtain now msg where a: "a = (now, msg)" by (cases a)
  have lt: "now < e" using Cons.prems(2) a by simp
  let ?m1 = "enqueueMessage now k msg m"
  have step: "enqueueMessages k (a # arrivals) m = enqueueMessages k arrivals ?m1"
    using a by (simp add: enqueueMessages_def)
  show ?case
  proof (cases "n > 0")
    case True
    then obtain n' where n: "n = Suc n'" by (cases n) simp_all
    have lim: "map_of (messageLimiter ?m1) k = Some (n', e)"
      using Cons.prems(1) lt n
      by (simp add: enqueueMessage_def consumeSync_bucket Let_def update_conv')
    have q: "queue ?m1 = queue m @ [(k, msg)]" and wm: "windowMap ?m1 = windowMap m"
      using Cons.prems(1) lt n
      by (simp_all add: enqueueMessage_def consumeSync_bucket Let_def)
    from Cons.IH[OF lim] Cons.prems(2)
    have "queue (enqueueMessages k arrivals ?m1) = queue ?m1 @ map (\<lambda>a. (k, snd a)) (take n' arrivals)
       \<and> windowMap (enqueueMessages k arrivals ?m1) = windowMap ?m1" by simp
    then show ?thesis using step q wm n a by simp
  next
    case False
    then have n: "n = 0" by simp
    have lim: "map_of (messageLimiter ?m1) k = Some (0, e)"
      using Cons.prems(1) lt n
      by (simp add: enqueueMessage_def consumeSync_bucket Let_def update_conv')
    have q: "queue ?m1 = queue m" and wm: "windowMap ?m1 = windowMap m"
      using Cons.prems(1) lt n
      by (simp_all add: enqueueMessage_def consumeSync_bucket Let_def)
    from Cons.IH[OF lim] Cons.prems(2)
    have "queue (enqueueMessages k arrivals ?m1) = queue ?m1 @ map (\<lambda>a. (k, snd a)) (take 0 arrivals)
       \<and> windowMap (enqueueMessages k arrivals ?m1) = windowMap ?m1" by simp
    then show ?thesis using step q wm n by simp
  qed
qed

text \<open>
  Claim C6. A message that arrives while the limiter says the session is over its limit
  leaves the shared queue, the registry and the consumer's wait handle as they were, and
  \<open>_enqueueMessage\<close> has no error to return; a message under the limit is appended to the
  queue. For a session with no bucket yet, of the messages that arrive before the interval
  of the first one ends (2000 ms), exactly the first 8 are appended: of 9 messages the
  9th is dropped.
\<close>

theorem over_limit_messages_are_dropped:
  "(\<not> fst (consumeSync 8 2 now k (messageLimiter m))
      \<longrightarrow> queue (enqueueMessage now k msg m) = queue m
          \<and> windowMap (enqueueMessage now k msg m) = windowMap m
          \<and> emptyQueueResolved (enqueueMessage now k msg m) = emptyQueueResolved m)
   \<and> (fst (consumeSync 8 2 now k (messageLimiter m))
      \<longrightarrow> queue (enqueueMessage now k msg m) = queue m @ [(k, msg)])
   \<and> (map_of (messageLimiter m) k = None \<and> (\<forall>a \<in> set arrivals. fst a < t0 + 2000)
      \<longrightarrow> queue (enqueueMessages k ((t0, msg0) # arrivals) m)
            = queue m @ map (\<lambda>a. (k, snd a)) (take 8 ((t0, msg0) # arrivals)))"
proof -
  have drop: "queue (enqueueMessage now k msg m) = queue m
          \<and> windowMap (enqueueMessage now k msg m) = windowMap m
          \<and> emptyQueueResolved (enqueueMessage now k msg m) = emptyQueueResolved m"
    if "\<not> fst (consumeSync 8 2 now k (messageLimiter m))"
    using that
    by (cases "consumeSync 8 2 now k (messageLimiter m)") (simp add: enqueueMessage_def Let_def)
  have push: "queue (enqueueMessage now k msg m) = queue m @ [(k, msg)]"
    if "fst (consumeSync 8 2 now k (messageLimiter m))"
    using that
    by (cases "consumeSync 8 2 now k (messageLimiter m)") (simp add: enqueueMessage_def Let_def)
  have nine: "queue (enqueueMessages k ((t0, msg0) # arrivals) m)
            = queue m @ map (\<lambda>a. (k, snd a)) (take 8 ((t0, msg0) # arrivals))"
    if a: "map_of (messageLimiter m) k = None \<and> (\<forall>a \<in> set arrivals. fst a < t0 + 2000)"
  proof -
    let ?m1 = "enqueueMessage t0 k msg0 m"
    have lim: "map_of (messageLimiter ?m1) k = Some (7, t0 + 2000)"
      using a by (simp add: enqueueMessage_def consumeSync_fresh Let_def update_conv')
    have q: "queue ?m1 = queue m @ [(k, msg0)]"
      using a by (simp add: enqueueMessage_def consumeSync_fresh Let_def)
    have step: "enqueueMessages k ((t0, msg0) # arrivals) m = enqueueMessages k arrivals ?m1"
      by (simp add: enqueueMessages_def)
    from enqueue_within_interval[OF lim] a
    have "queue (enqueueMessages k arrivals ?m1)
            = queue ?m1 @ map (\<lambda>a. (k, snd a)) (take 7 arrivals)"
      by simp
    then show ?thesis
      using step q by (simp add: numeral_eq_Suc)
  qed
  show ?thesis using drop push nine by blast
qed

text \<open>
  Claim C10. For a session id that is not in the registry, \<open>disconnectWindow\<close> does
  nothing and raises nothing, \<open>reconnectWindow\<close> raises TypeError (a call on
  \<open>undefined\<close>), whatever the method \<open>reconnect\<close> of the window class does, and both
  leave the manager as it was.
\<close>

theorem unknown_session_reconnect_throws:
  "map_of (windowMap m) windowId = None \<Longrightarrow>
     disconnectWindow windowId m = (None, m)
     \<and> reconnectWindow windowReconnect windowId cookieString readOffset m = (Some TypeError, m)"
  by (simp add: disconnectWindow_def reconnectWindow_def)

lemma allocPage_session:
  "session (snd (snd (allocPage P h s))) = session (snd s)"
  by (cases s) (simp add: allocPage_def session_def split: prod.splits)

lemma openMutationGroup_session:
  "session (snd (snd (openMutationGroup P s))) = session (snd s)"
proof -
  obtain pool w where s: "s = (pool, w)" by (cases s)
  show ?thesis
  proof (cases "mutationGroup w")
    case (Some mg)
    then show ?thesis using s by (simp add: openMutationGroup_def)
  next
    case None
    show ?thesis
    proof (cases "length (pages w) = 0")
      case True
      obtain r pool1 w1 where a: "allocPage P (global_writeOffset w) (pool, w) = (r, (pool1, w1))"
        by (metis prod.exhaust)
      with allocPage_session[of P "global_writeOffset w" "(pool, w)"]
      show ?thesis using s None True by (simp add: openMutationGroup_def Let_def session_def)
    next
      case False
      then show ?thesis using s None by (simp add: openMutationGroup_def Let_def session_def)
    qed
  qed
qed

lemma flush_session:
  "session (flushMutationGroup w) = session w"
  by (simp add: flushMutationGroup_def Let_def session_def split: option.splits)

lemma alloc_session:
  "session (snd (snd (allocCommandBuffer P sz s))) = session (snd s)"
proof -
  obtain mg pool1 w1 where o: "openMutationGroup P s = (mg, (pool1, w1))"
    by (metis prod.exhaust)
  with openMutationGroup_session[of P s]
  have w1: "session w1 = session (snd s)" by simp
  let ?cpo = "global_writeOffset w1 - global_headOffset (page_objs w1 ! mg_page mg)"
  let ?w2 = "w1\<lparr>page_objs := (page_objs w1)
                          [mg_page mg := (page_objs w1 ! mg_page mg)\<lparr>finalSize := ?cpo\<rparr>]\<rparr>"
  let ?w3 = "flushMutationGroup ?w2"
  obtain r pool4 w4 where a: "allocPage P (global_writeOffset ?w3) (pool1, ?w3) = (r, (pool4, w4))"
    by (metis prod.exhaust)
  have "session ?w2 = session w1" by (simp add: session_def)
  with allocPage_session[of P "global_writeOffset ?w3" "(pool1, ?w3)"] a
  have "session w4 = session (snd s)"
    using w1 by (simp add: flush_session)
  then show ?thesis
    using o a w1 by (simp add: allocCommandBuffer_def Let_def session_def)
qed

lemma flushBlockDeleteQueue_session:
  "session (snd (snd (flushBlockDeleteQueue P s))) = session (snd s)"
proof -
  obtain pool w where s: "s = (pool, w)" by (cases s)
  let ?sz = "1 + 2 * int (length (deleteBlockQueue w)) + 2"
  show ?thesis
    using alloc_session[of P ?sz s] s
    by (cases "allocCommandBuffer P ?sz s")
       (auto simp: flushBlockDeleteQueue_def write_view_def Let_def session_def)
qed

lemma callbacks_okD:
  assumes "callbacks_ok m" and "map_of (windowMap m) k = Some w"
  shows "destroyFnCallback w = Some k"
proof -
  from assms(2) have "(k, w) \<in> set (windowMap m)" by (rule map_of_SomeD)
  with assms(1) show ?thesis by (auto simp: callbacks_ok_def list_all_iff)
qed

lemma callbacks_ok_update:
  assumes "callbacks_ok m" and "destroyFnCallback w = Some k"
  shows "callbacks_ok (m\<lparr>windowMap := AList.update k w (windowMap m), bufferPool := p\<rparr>)"
proof -
  have "list_all (\<lambda>(k, w). destroyFnCallback w = Some k) (AList.update k w al)"
    if "list_all (\<lambda>(k, w). destroyFnCallback w = Some k) al" for al
    using that assms(2) by (induction al) auto
  then show ?thesis using assms(1) by (simp add: callbacks_ok_def)
qed

lemma callbacks_ok_delete:
  assumes "callbacks_ok m"
  shows "callbacks_ok (m\<lparr>windowMap := AList.delete k (windowMap m), bufferPool := p\<rparr>)"
  using assms by (auto simp: callbacks_ok_def list_all_iff AList.delete_eq)

lemma returned_buffers:
  "foldl (\<lambda>pool r. returnBuffer (buffer (objs ! r)) pool) pool refs
     = rev (map (\<lambda>r. buffer (objs ! r)) refs) @ pool"
  by (induction refs arbitrary: pool) (simp_all add: returnBuffer_def)

theorem unknown_session_reconnect_throws_witness:
  "map_of (windowMap
      \<lparr>windowMap = [(''a'', onDestroy ''a'' (snd (snd (new_window 32 1000 ''a'' [] []))))],
        queue = [], emptyQueueResolved = 0, messageLimiter = [], bufferPool = []\<rparr>) ''b''
     = None
   \<and> disconnectWindow ''b''
      \<lparr>windowMap = [(''a'', onDestroy ''a'' (snd (snd (new_window 32 1000 ''a'' [] []))))],
        queue = [], emptyQueueResolved = 0, messageLimiter = [], bufferPool = []\<rparr>
     = (None,
      \<lparr>windowMap = [(''a'', onDestroy ''a'' (snd (snd (new_window 32 1000 ''a'' [] []))))],
        queue = [], emptyQueueResolved = 0, messageLimiter = [], bufferPool = []\<rparr>)
   \<and> reconnectWindow (\<lambda>cookieString. reconnect [] 2000) ''b'' ''c=1'' 0
      \<lparr>windowMap = [(''a'', onDestroy ''a'' (snd (snd (new_window 32 1000 ''a'' [] []))))],
        queue = [], emptyQueueResolved = 0, messageLimiter = [], bufferPool = []\<rparr>
     = (Some TypeError,
      \<lparr>windowMap = [(''a'', onDestroy ''a'' (snd (snd (new_window 32 1000 ''a'' [] []))))],
        queue = [], emptyQueueResolved = 0, messageLimiter = [], bufferPool = []\<rparr>)"
proof -
  let ?m = "\<lparr>windowMap = [(''a'', onDestroy ''a'' (snd (snd (new_window 32 1000 ''a'' [] []))))],
        queue = [], emptyQueueResolved = 0, messageLimiter = [], bufferPool = []\<rparr>"
  have h: "map_of (windowMap ?m) ''b'' = None" by simp
  from unknown_session_reconnect_throws[OF h, of "\<lambda>cookieString. reconnect [] 2000" "''c=1''" 0] h
  show ?thesis by simp
qed

theorem over_limit_messages_are_dropped_witness:
  "map_of (messageLimiter
       \<lparr>windowMap = [], queue = [], emptyQueueResolved = 0, messageLimiter = [], bufferPool = []\<rparr>)
       ''s'' = None
   \<and> queue (enqueueMessages ''s''
        [(0, [1]), (100, [2]), (200, [3]), (300, [4]), (400, [5]), (500, [6]), (600, [7]),
         (700, [8]), (800, [9])]
        \<lparr>windowMap = [], queue = [], emptyQueueResolved = 0, messageLimiter = [], bufferPool = []\<rparr>)
     = [(''s'', [1]), (''s'', [2]), (''s'', [3]), (''s'', [4]), (''s'', [5]), (''s'', [6]),
        (''s'', [7]), (''s'', [8])]
   \<and> \<not> fst (consumeSync 8 2 800 ''s'' (messageLimiter (enqueueMessages ''s''
        [(0, [1]), (100, [2]), (200, [3]), (300, [4]), (400, [5]), (500, [6]), (600, [7]),
         (700, [8])]
        \<lparr>windowMap = [], queue = [], emptyQueueResolved = 0, messageLimiter = [], bufferPool = []\<rparr>)))
   \<and> queue (enqueueMessage 800 ''s'' [9] (enqueueMessages ''s''
        [(0, [1]), (100, [2]), (200, [3]), (300, [4]), (400, [5]), (500, [6]), (600, [7]),
         (700, [8])]
        \<lparr>windowMap = [], queue = [], emptyQueueResolved = 0, messageLimiter = [], bufferPool = []\<rparr>))
     = queue (enqueueMessages ''s''
        [(0, [1]), (100, [2]), (200, [3]), (300, [4]), (400, [5]), (500, [6]), (600, [7]),
         (700, [8])]
        \<lparr>windowMap = [], queue = [], emptyQueueResolved = 0, messageLimiter = [], bufferPool = []\<rparr>)
   \<and> fst (consumeSync 8 2 0 ''s'' (messageLimiter
        \<lparr>windowMap = [], queue = [], emptyQueueResolved = 0, messageLimiter = [], bufferPool = []\<rparr>))
   \<and> queue (enqueueMessage 0 ''s'' [1]
        \<lparr>windowMap = [], queue = [], emptyQueueResolved = 0, messageLimiter = [], bufferPool = []\<rparr>)
     = [(''s'', [1])]"
proof -
  let ?m0 = "\<lparr>windowMap = [], queue = [], emptyQueueResolved = 0, messageLimiter = [],
               bufferPool = []\<rparr>"
  let ?m8 = "enqueueMessages ''s''
        [(0, [1]), (100, [2]), (200, [3]), (300, [4]), (400, [5]), (500, [6]), (600, [7]),
         (700, [8])] ?m0"
  let ?rest = "[(100, [2]), (200, [3]), (300, [4]), (400, [5]), (500, [6]), (600, [7]),
         (700, [8]), (800, [9::byte])] :: (int \<times> buffer) list"
  have h1: "map_of (messageLimiter ?m0) ''s'' = None" by simp
  have h2: "\<forall>a \<in> set ?rest. fst a < 0 + 2000" by simp
  have h3: "\<not> fst (consumeSync 8 2 800 ''s'' (messageLimiter ?m8))" by code_simp
  have h4: "fst (consumeSync 8 2 0 ''s'' (messageLimiter ?m0))" by code_simp
  note t0 = over_limit_messages_are_dropped[where m = ?m0 and k = "''s''" and now = 0
      and msg = "[1]" and ?t0.0 = 0 and ?msg0.0 = "[1]" and arrivals = ?rest]
  note t8 = over_limit_messages_are_dropped[where m = ?m8 and k = "''s''" and now = 800
      and msg = "[9]" and ?t0.0 = 0 and ?msg0.0 = "[1]" and arrivals = ?rest]
  have a: "queue (enqueueMessages ''s'' ((0, [1]) # ?rest) ?m0)
            = queue ?m0 @ map (\<lambda>a. (''s'', snd a)) (take 8 ((0, [1]) # ?rest))"
    using t0 h1 h2 by blast
  have b: "queue (enqueueMessage 800 ''s'' [9] ?m8) = queue ?m8"
    using t8 h3 by blast
  have c: "queue (enqueueMessage 0 ''s'' [1] ?m0) = queue ?m0 @ [(''s'', [1])]"
    using t0 h4 by blast
  show ?thesis using a b c h1 h3 h4 by (simp add: numeral_eq_Suc)
qed

section \<open>The pages hold the stream\<close>


lemma stored_head:
  "stored P s wo (q # ps) \<Longrightarrow> 0 \<le> global_headOffset q \<and> global_headOffset q < wo"
proof (induction ps arbitrary: q)
  case Nil
  then show ?case by simp
next
  case (Cons r ps)
  from Cons.prems have "stored P s wo (r # ps)" and "global_headOffset r = global_headOffset q + finalSize q"
    and "0 < finalSize q" and "0 \<le> global_headOffset q" by simp_all
  with Cons.IH[of r] show ?case by simp
qed


lemma map_nth_from:
  "r \<le> length xs \<Longrightarrow> map (\<lambda>i. xs ! i) [r..<length xs] = drop r xs"
  by (rule nth_equalityI) (simp_all add: nth_map_upt)

lemma live_lists:
  assumes "pages_ok w"
  shows "\<exists>L0. map (\<lambda>i. page_objs w ! i) (pages w) = L0 @ [last (page_objs w)]
          \<and> (\<forall>x. map (\<lambda>i. (page_objs w)[tail_ref w := x] ! i) (pages w) = L0 @ [x])
          \<and> (\<forall>x q. map (\<lambda>i. ((page_objs w)[tail_ref w := x] @ [q]) ! i)
                    (pages w @ [length (page_objs w)]) = L0 @ [x, q])"
proof -
  define r where "r = hd (pages w)"
  from pages_okD[OF assms] have lt: "r < length (page_objs w)"
    and eq: "pages w = [r..<length (page_objs w)]" and ne: "page_objs w \<noteq> []"
    unfolding r_def by simp_all
  obtain B l where objs: "page_objs w = B @ [l]" using ne by (cases "page_objs w" rule: rev_cases) auto
  have r: "r \<le> length B" using lt objs by simp
  have pg: "pages w = [r..<length (B @ [y])]" for y using eq objs by simp
  have upd: "(page_objs w)[tail_ref w := x] = B @ [x]" for x
    using objs by (simp add: tail_ref_def)
  have a: "map (\<lambda>i. (B @ [y]) ! i) (pages w) = drop r B @ [y]" for y
  proof -
    have "map (\<lambda>i. (B @ [y]) ! i) [r..<length (B @ [y])] = drop r (B @ [y])"
      using r by (intro map_nth_from) simp
    then have "map (\<lambda>i. (B @ [y]) ! i) (pages w) = drop r (B @ [y])"
      by (simp only: pg[of y])
    then show ?thesis using r by simp
  qed
  have b: "map (\<lambda>i. (B @ [x] @ [q]) ! i) (pages w @ [length (page_objs w)]) = drop r B @ [x, q]"
    for x q
  proof -
    have "[r..<Suc (Suc (length B))] = [r..<Suc (length B)] @ [Suc (length B)]"
      using r by simp
    then have p2: "pages w @ [length (page_objs w)] = [r..<length (B @ [x] @ [q])]"
      using eq objs by simp
    have "map (\<lambda>i. (B @ [x] @ [q]) ! i) [r..<length (B @ [x] @ [q])]
                     = drop r (B @ [x] @ [q])"
      using r by (intro map_nth_from) simp
    then have "map (\<lambda>i. (B @ [x] @ [q]) ! i) (pages w @ [length (page_objs w)])
                     = drop r (B @ [x] @ [q])"
      by (simp only: p2)
    then show ?thesis using r by simp
  qed
  have "map (\<lambda>i. page_objs w ! i) (pages w) = drop r B @ [last (page_objs w)]"
    using a[of l] objs by simp
  moreover have "map (\<lambda>i. (page_objs w)[tail_ref w := x] ! i) (pages w) = drop r B @ [x]" for x
    using a[of x] upd[of x] by simp
  moreover have "map (\<lambda>i. ((page_objs w)[tail_ref w := x] @ [q]) ! i)
                    (pages w @ [length (page_objs w)]) = drop r B @ [x, q]" for x q
    using b[of x q] upd[of x] by simp
  ultimately show ?thesis by blast
qed

lemma stored_tl:
  "stored P s wo (x # y # ys) \<Longrightarrow> stored P s wo (y # ys)"
  by simp

lemma stored_last:
  "stored P s wo (L0 @ [p]) \<Longrightarrow> stored P s wo [p]"
proof (induction L0)
  case Nil
  then show ?case by simp
next
  case (Cons x L0)
  obtain y ys where y: "L0 @ [p] = y # ys" by (cases "L0 @ [p]") simp_all
  from Cons.prems y have "stored P s wo (x # y # ys)" by simp
  then have "stored P s wo (L0 @ [p])" using y by (simp only: stored_tl)
  then show ?case by (rule Cons.IH)
qed

lemma stored_retarget:
  assumes "stored P s wo (L0 @ [p])" and "int (length s) = wo"
    and "stored P (s @ bs) wo' T" and "T \<noteq> []"
    and "global_headOffset (hd T) = global_headOffset p"
  shows "stored P (s @ bs) wo' (L0 @ T)"
  using assms(1)
proof (induction L0)
  case Nil
  show ?case using assms(3) by simp
next
  case (Cons x L0)
  obtain y ys where y: "L0 @ [p] = y # ys" by (cases "L0 @ [p]") simp_all
  obtain y' ys' where y': "L0 @ T = y' # ys'" using assms(4) by (cases "L0 @ T") simp_all
  have hy: "global_headOffset y' = global_headOffset y"
  proof (cases L0)
    case Nil
    then show ?thesis using y y' assms(5) by (cases T) simp_all
  next
    case (Cons z zs)
    then show ?thesis using y y' by simp
  qed
  from Cons.prems y have x: "0 < finalSize x" "finalSize x \<le> int P" "length (buffer x) = P"
    "0 \<le> global_headOffset x" "global_headOffset y = global_headOffset x + finalSize x"
    "take (nat (finalSize x)) (buffer x)
       = take (nat (finalSize x)) (drop (nat (global_headOffset x)) s)"
    and rest: "stored P s wo (L0 @ [p])"
    by simp_all
  have "global_headOffset y < wo" using stored_head[of P s wo y ys] rest y by simp
  then have "nat (global_headOffset x) + nat (finalSize x) \<le> length s"
    using x(1,4,5) assms(2) by simp
  then have "take (nat (finalSize x)) (drop (nat (global_headOffset x)) (s @ bs))
           = take (nat (finalSize x)) (drop (nat (global_headOffset x)) s)"
    by simp
  then show ?case
    using x hy y' Cons.IH[OF rest] by simp
qed

lemma stored_write_tail:
  assumes "stored P s wo (L0 @ [p])" and "int (length s) = wo"
    and "wo - global_headOffset p + int (length bs) \<le> int P"
  shows "stored P (s @ bs) (wo + int (length bs))
           (L0 @ [p\<lparr>buffer := take (nat (wo - global_headOffset p)) (buffer p) @ bs
                      @ drop (nat (wo - global_headOffset p) + length bs) (buffer p)\<rparr>])"
proof -
  let ?u = "nat (wo - global_headOffset p)"
  from stored_last[OF assms(1)] have p: "finalSize p = 0" "length (buffer p) = P"
    "0 \<le> global_headOffset p" "global_headOffset p < wo" "wo - global_headOffset p \<le> int P"
    "take ?u (buffer p) = drop (nat (global_headOffset p)) s"
    by simp_all
  have u: "?u + length bs \<le> P" using assms(3) p by simp
  have un: "nat (wo + int (length bs) - global_headOffset p) = ?u + length bs"
    using p by simp
  have lu: "length (take ?u (buffer p)) = ?u" using u p(2) by simp
  have "take (?u + length bs) (take ?u (buffer p) @ bs @ drop (?u + length bs) (buffer p))
          = take ?u (buffer p) @ bs"
    using lu by simp
  also have "\<dots> = drop (nat (global_headOffset p)) (s @ bs)"
  proof -
    have "nat (global_headOffset p) \<le> length s" using p assms(2) by simp
    then show ?thesis using p(6) by simp
  qed
  finally have c: "take (?u + length bs) (take ?u (buffer p) @ bs @ drop (?u + length bs) (buffer p))
          = drop (nat (global_headOffset p)) (s @ bs)" .
  have "stored P (s @ bs) (wo + int (length bs))
          [p\<lparr>buffer := take ?u (buffer p) @ bs @ drop (?u + length bs) (buffer p)\<rparr>]"
    using p u un c lu assms(3) by simp
  then show ?thesis
    by (intro stored_retarget[OF assms(1,2)]) simp_all
qed

lemma stored_seal_tail:
  assumes "stored P s wo (L0 @ [p])" and "int (length s) = wo"
    and "length buf = P" and "0 < length bs" and "length bs \<le> P"
  shows "stored P (s @ bs) (wo + int (length bs))
           (L0 @ [p\<lparr>finalSize := wo - global_headOffset p\<rparr>,
                  \<lparr>global_headOffset = wo, buffer = bs @ drop (length bs) buf, finalSize = 0\<rparr>])"
proof -
  let ?u = "nat (wo - global_headOffset p)"
  from stored_last[OF assms(1)] have p: "finalSize p = 0" "length (buffer p) = P"
    "0 \<le> global_headOffset p" "global_headOffset p < wo" "wo - global_headOffset p \<le> int P"
    "take ?u (buffer p) = drop (nat (global_headOffset p)) s"
    by simp_all
  have h: "nat (global_headOffset p) \<le> length s" using p assms(2) by simp
  have "take ?u (drop (nat (global_headOffset p)) (s @ bs)) = drop (nat (global_headOffset p)) s"
  proof -
    have "length (drop (nat (global_headOffset p)) s) = ?u" using assms(2) p by simp
    then show ?thesis using h by simp
  qed
  then have c1: "take ?u (buffer p) = take ?u (drop (nat (global_headOffset p)) (s @ bs))"
    using p(6) by simp
  have c2: "take (length bs) (bs @ drop (length bs) buf) = drop (nat wo) (s @ bs)"
    using assms(2) by simp
  have w: "nat wo = length s" using assms(2) by simp
  have "stored P (s @ bs) (wo + int (length bs))
          [p\<lparr>finalSize := wo - global_headOffset p\<rparr>,
           \<lparr>global_headOffset = wo, buffer = bs @ drop (length bs) buf, finalSize = 0\<rparr>]"
    using p c1 c2 assms(3,4,5) w by simp
  then show ?thesis
    by (intro stored_retarget[OF assms(1,2)]) simp_all
qed

lemma stream_okD:
  assumes "stream_ok P s (pool, w)"
  shows "pages_ok w" "list_all (\<lambda>b. length b = P) pool" "int (length s) = global_writeOffset w"
    "global_headOffset (page_objs w ! hd (pages w)) \<le> global_readOffset w"
    "stored P s (global_writeOffset w) (live w)"
  using assms by (simp_all add: stream_ok_def)

lemma stream_ok_tail:
  assumes "stream_ok P s (pool, w)"
  shows "finalSize (page_objs w ! tail_ref w) = 0" "length (buffer (page_objs w ! tail_ref w)) = P"
    "0 < tail_used w" "tail_used w \<le> int P" "tail_ref w < length (page_objs w)"
    "0 \<le> global_headOffset (page_objs w ! tail_ref w)"
proof -
  note ok = stream_okD[OF assms]
  from live_lists[OF ok(1)] obtain L0 where
    L: "live w = L0 @ [last (page_objs w)]" by (auto simp: live_def)
  have ne: "page_objs w \<noteq> []" using pages_okD(3)[OF ok(1)] .
  then have t: "last (page_objs w) = page_objs w ! tail_ref w"
    by (simp add: last_conv_nth tail_ref_def)
  from ok(5) L have "stored P s (global_writeOffset w) [page_objs w ! tail_ref w]"
    using stored_last t by metis
  then show "finalSize (page_objs w ! tail_ref w) = 0" "length (buffer (page_objs w ! tail_ref w)) = P"
    "0 < tail_used w" "tail_used w \<le> int P" "0 \<le> global_headOffset (page_objs w ! tail_ref w)"
    by (simp_all add: tail_used_def)
  show "tail_ref w < length (page_objs w)" using ne by (simp add: tail_ref_def)
qed

lemma first_head_update:
  assumes "pages_ok w" and "global_headOffset x = global_headOffset (page_objs w ! tail_ref w)"
  shows "global_headOffset ((page_objs w)[tail_ref w := x] ! hd (pages w))
           = global_headOffset (page_objs w ! hd (pages w))"
    "global_headOffset (((page_objs w)[tail_ref w := x] @ [q]) ! hd (pages w))
           = global_headOffset (page_objs w ! hd (pages w))"
proof -
  have lt: "hd (pages w) < length (page_objs w)" using pages_okD(1)[OF assms(1)] .
  show a: "global_headOffset ((page_objs w)[tail_ref w := x] ! hd (pages w))
           = global_headOffset (page_objs w ! hd (pages w))"
    using assms(2) lt by (cases "hd (pages w) = tail_ref w") (simp_all add: nth_list_update)
  show "global_headOffset (((page_objs w)[tail_ref w := x] @ [q]) ! hd (pages w))
           = global_headOffset (page_objs w ! hd (pages w))"
    using a lt by (simp add: nth_append)
qed

lemma alloc_fits_stream:
  assumes "stream_ok P s (pool, w)" and "length bs = n"
    and "tail_used w + int n < int P"
  shows "\<exists>v w'. allocCommandBuffer P (int n) (pool, w) = (v, (pool, w'))
           \<and> v = \<lparr>view_page = tail_ref w, view_start = nat (tail_used w), view_len = n\<rparr>
           \<and> tail_ref w' = tail_ref w \<and> pages w' = pages w
           \<and> global_writeOffset w' = global_writeOffset w + int n
           \<and> page_objs w' = page_objs w
           \<and> stream_ok P (s @ bs) (pool, write_view v bs w')"
proof -
  note ok = stream_okD[OF assms(1)] and tl = stream_ok_tail[OF assms(1)]
  let ?p = "page_objs w ! tail_ref w"
  let ?u = "tail_used w"
  let ?w' = "w\<lparr>mutationGroup := Some \<lparr>mg_page = tail_ref w, pageStartOffset = group_start w\<rparr>,
                global_writeOffset := global_writeOffset w + int n\<rparr>"
  let ?v = "\<lparr>view_page = tail_ref w, view_start = nat ?u, view_len = n\<rparr>"
  let ?buf = "take (nat ?u) (buffer ?p) @ bs @ drop (nat ?u + n) (buffer ?p)"
  have vo: "view_of w (tail_ref w) ?u (?u + int n) = ?v"
  proof -
    have "rel_index P ?u = nat ?u" "rel_index P (?u + int n) = nat ?u + n"
      using tl(3) assms(3) by (simp_all add: rel_index_def nat_add_distrib)
    then show ?thesis using tl(2) by (simp add: view_of_def subarray_range_def)
  qed
  have al: "allocCommandBuffer P (int n) (pool, w) = (?v, (pool, ?w'))"
    using alloc_fits[OF ok(1) assms(3)] vo by simp
  have wv: "write_view ?v bs ?w' = ?w'\<lparr>page_objs := (page_objs w)[tail_ref w := ?p\<lparr>buffer := ?buf\<rparr>]\<rparr>"
    using assms(2) by (simp add: write_view_def Let_def)
  from live_lists[OF ok(1)] obtain L0 where
    L: "live w = L0 @ [last (page_objs w)]"
    and L': "\<And>x. map (\<lambda>i. (page_objs w)[tail_ref w := x] ! i) (pages w) = L0 @ [x]"
    by (auto simp: live_def)
  have t: "last (page_objs w) = ?p"
    using pages_okD(3)[OF ok(1)] by (simp add: last_conv_nth tail_ref_def)
  have st: "stored P s (global_writeOffset w) (L0 @ [?p])" using ok(5) L t by simp
  have "stored P (s @ bs) (global_writeOffset w + int (length bs))
           (L0 @ [?p\<lparr>buffer := take (nat (global_writeOffset w - global_headOffset ?p)) (buffer ?p) @ bs
                      @ drop (nat (global_writeOffset w - global_headOffset ?p) + length bs) (buffer ?p)\<rparr>])"
    using assms(2,3) by (intro stored_write_tail[OF st ok(3)]) (simp add: tail_used_def)
  then have st': "stored P (s @ bs) (global_writeOffset w + int n) (L0 @ [?p\<lparr>buffer := ?buf\<rparr>])"
    using assms(2) by (simp add: tail_used_def)
  have pk: "pages_ok (write_view ?v bs ?w')"
    using pages_ok_alloc_write[of "(pool, w)" P "int n" ?v pool ?w' bs] ok(1) al by simp
  have lv: "live (write_view ?v bs ?w') = L0 @ [?p\<lparr>buffer := ?buf\<rparr>]"
    using L'[of "?p\<lparr>buffer := ?buf\<rparr>"] by (simp add: wv live_def)
  have hd: "global_headOffset (page_objs (write_view ?v bs ?w') ! hd (pages (write_view ?v bs ?w')))
              \<le> global_readOffset (write_view ?v bs ?w')"
    using first_head_update(1)[OF ok(1), of "?p\<lparr>buffer := ?buf\<rparr>"] ok(4) by (simp add: wv)
  have "stream_ok P (s @ bs) (pool, write_view ?v bs ?w')"
    using pk ok(2,3) hd st' lv assms(2)
    by (simp add: stream_ok_def) (simp add: wv)
  moreover have "page_objs ?w' = page_objs w" by simp
  moreover have "tail_ref ?w' = tail_ref w" by (simp add: tail_ref_def)
  ultimately show ?thesis using al by simp
qed

lemma pool_alloc_ok:
  assumes "list_all (\<lambda>b. length b = P) pool"
  shows "length (fst (bufferPool_alloc P pool)) = P"
    "list_all (\<lambda>b. length b = P) (snd (bufferPool_alloc P pool))"
  using assms by (cases pool; simp add: bufferPool_alloc_def)+

lemma alloc_overflow_stream:
  assumes "stream_ok P s (pool, w)" and "length bs = n" and "0 < n" and "n \<le> P"
    and "tail_used w + int n \<ge> int P"
  shows "\<exists>v pool' w'. allocCommandBuffer P (int n) (pool, w) = (v, (pool', w'))
           \<and> v = \<lparr>view_page = length (page_objs w), view_start = 0, view_len = n\<rparr>
           \<and> tail_ref w' = length (page_objs w) \<and> pages w' = pages w @ [length (page_objs w)]
           \<and> global_writeOffset w' = global_writeOffset w + int n
           \<and> global_headOffset (page_objs w' ! length (page_objs w)) = global_writeOffset w
           \<and> length (buffer (page_objs w' ! length (page_objs w))) = P
           \<and> finalSize (page_objs w' ! tail_ref w) = tail_used w
           \<and> stream_ok P (s @ bs) (pool', write_view v bs w')"
proof -
  note ok = stream_okD[OF assms(1)] and tl = stream_ok_tail[OF assms(1)]
  let ?p = "page_objs w ! tail_ref w"
  let ?u = "tail_used w"
  let ?nb = "fst (bufferPool_alloc P pool)"
  let ?pool' = "snd (bufferPool_alloc P pool)"
  let ?p' = "?p\<lparr>finalSize := ?u\<rparr>"
  let ?q = "\<lparr>global_headOffset = global_writeOffset w, buffer = ?nb, finalSize = 0\<rparr>"
  let ?q' = "\<lparr>global_headOffset = global_writeOffset w, buffer = bs @ drop n ?nb, finalSize = 0\<rparr>"
  let ?w' = "w\<lparr>port := port (flushMutationGroup
                        (w\<lparr>mutationGroup := Some \<lparr>mg_page = tail_ref w, pageStartOffset = group_start w\<rparr>\<rparr>)),
               page_objs := (page_objs w)[tail_ref w := ?p'] @ [?q],
               pages := pages w @ [length (page_objs w)],
               mutationGroup := Some \<lparr>mg_page = length (page_objs w),
                                      pageStartOffset = global_writeOffset w\<rparr>,
               global_writeOffset := global_writeOffset w + int n\<rparr>"
  let ?v = "\<lparr>view_page = length (page_objs w), view_start = 0, view_len = n\<rparr>"
  have nb: "length ?nb = P" and pl: "list_all (\<lambda>b. length b = P) ?pool'"
    using pool_alloc_ok[OF ok(2)] by simp_all
  have ri: "rel_index (length ?nb) (int n) = n" using nb assms(4) by (simp add: rel_index_def)
  have al: "allocCommandBuffer P (int n) (pool, w) = (?v, (?pool', ?w'))"
    using alloc_overflow[OF ok(1) assms(5)] ri by simp
  have wv: "write_view ?v bs ?w' = ?w'\<lparr>page_objs := (page_objs w)[tail_ref w := ?p'] @ [?q']\<rparr>"
    using assms(2) by (simp add: write_view_def Let_def nth_append list_update_append)
  from live_lists[OF ok(1)] obtain L0 where
    L: "live w = L0 @ [last (page_objs w)]"
    and L': "\<And>x q. map (\<lambda>i. ((page_objs w)[tail_ref w := x] @ [q]) ! i)
                    (pages w @ [length (page_objs w)]) = L0 @ [x, q]"
    by (auto simp: live_def)
  have t: "last (page_objs w) = ?p"
    using pages_okD(3)[OF ok(1)] by (simp add: last_conv_nth tail_ref_def)
  have st: "stored P s (global_writeOffset w) (L0 @ [?p])" using ok(5) L t by simp
  have "stored P (s @ bs) (global_writeOffset w + int (length bs))
           (L0 @ [?p\<lparr>finalSize := global_writeOffset w - global_headOffset ?p\<rparr>,
                  \<lparr>global_headOffset = global_writeOffset w, buffer = bs @ drop (length bs) ?nb,
                     finalSize = 0\<rparr>])"
    using assms(2,3,4) nb by (intro stored_seal_tail[OF st ok(3)]) simp_all
  then have st': "stored P (s @ bs) (global_writeOffset w + int n) (L0 @ [?p', ?q'])"
    using assms(2) by (simp add: tail_used_def)
  have pk: "pages_ok (write_view ?v bs ?w')"
    using pages_ok_alloc_write[of "(pool, w)" P "int n" ?v ?pool' ?w' bs] ok(1) al by simp
  have lv: "live (write_view ?v bs ?w') = L0 @ [?p', ?q']"
    using L'[of ?p' ?q'] by (simp add: wv live_def)
  have hp: "hd (pages w @ [length (page_objs w)]) = hd (pages w)"
    using pages_okD(5)[OF ok(1)] by simp
  have hd: "global_headOffset (page_objs (write_view ?v bs ?w') ! hd (pages (write_view ?v bs ?w')))
              \<le> global_readOffset (write_view ?v bs ?w')"
    using first_head_update(2)[OF ok(1), of ?p' ?q'] ok(4) hp by (simp add: wv)
  have "stream_ok P (s @ bs) (?pool', write_view ?v bs ?w')"
    using pk pl ok(3) hd st' lv assms(2)
    by (simp add: stream_ok_def) (simp add: wv)
  moreover have "tail_ref ?w' = length (page_objs w)" by (simp add: tail_ref_def)
  moreover have "finalSize (page_objs ?w' ! tail_ref w) = ?u"
    using tl(5) by (simp add: nth_append)
  moreover have "global_headOffset (page_objs ?w' ! length (page_objs w)) = global_writeOffset w"
    "length (buffer (page_objs ?w' ! length (page_objs w))) = P"
    using nb by (simp_all add: nth_append)
  ultimately show ?thesis using al by simp
qed

lemma stream_ok_writeCommand:
  assumes "stream_ok P s st" and "0 < length bs" and "length bs \<le> P"
  shows "\<exists>st'. writeCommand P bs st = (None, st') \<and> stream_ok P (s @ bs) st'
           \<and> global_writeOffset (snd st') = global_writeOffset (snd st) + int (length bs)"
proof -
  obtain pool w where st: "st = (pool, w)" by (cases st)
  note a = assms(1)[unfolded st]
  show ?thesis
  proof (cases "tail_used w + int (length bs) < int P")
    case True
    from alloc_fits_stream[OF a refl True] show ?thesis
      using st by (auto simp: writeCommand_def write_view_def Let_def)
  next
    case False
    then have "tail_used w + int (length bs) \<ge> int P" by simp
    from alloc_overflow_stream[OF a refl assms(2,3) this] show ?thesis
      using st by (auto simp: writeCommand_def write_view_def Let_def)
  qed
qed

lemma freePages_stored:
  assumes "stored P s wo (map (\<lambda>r. objs ! r) refs)"
    and "global_headOffset (objs ! hd refs) \<le> ro"
  shows "\<exists>k. k < length refs
          \<and> freePages objs ro refs pool =
               (None, drop k refs, rev (map (\<lambda>r. buffer (objs ! r)) (take k refs)) @ pool)
          \<and> stored P s wo (map (\<lambda>r. objs ! r) (drop k refs))
          \<and> global_headOffset (objs ! hd (drop k refs)) \<le> ro
          \<and> (if finalSize (objs ! hd (drop k refs)) > 0
              then ro < global_headOffset (objs ! hd (drop k refs)) + finalSize (objs ! hd (drop k refs))
              else finalSize (objs ! hd (drop k refs)) = 0)
          \<and> list_all (\<lambda>r. length (buffer (objs ! r)) = P) (take k refs)"
  using assms
proof (induction refs arbitrary: pool)
  case Nil
  then show ?case by simp
next
  case (Cons r rs)
  let ?p = "objs ! r"
  show ?case
  proof (cases rs)
    case Nil
    with Cons.prems have "finalSize ?p = 0" by simp
    then show ?thesis using Cons.prems Nil by (intro exI[of _ 0]) simp
  next
    case (Cons r' rs')
    with Cons.prems(1) have p: "0 < finalSize ?p" "length (buffer ?p) = P"
      "global_headOffset (objs ! r') = global_headOffset ?p + finalSize ?p"
      and rest: "stored P s wo (map (\<lambda>r. objs ! r) rs)"
      by simp_all
    show ?thesis
    proof (cases "ro \<ge> global_headOffset ?p + finalSize ?p")
      case False
      then show ?thesis using Cons.prems p(1) by (intro exI[of _ 0]) simp
    next
      case True
      then have "global_headOffset (objs ! hd rs) \<le> ro" using p(3) Cons by simp
      from Cons.IH[OF rest this, of "returnBuffer (buffer ?p) pool"]
      obtain k where k: "k < length rs"
        "freePages objs ro rs (returnBuffer (buffer ?p) pool) =
           (None, drop k rs, rev (map (\<lambda>r. buffer (objs ! r)) (take k rs)) @
              returnBuffer (buffer ?p) pool)"
        "stored P s wo (map (\<lambda>r. objs ! r) (drop k rs))"
        "global_headOffset (objs ! hd (drop k rs)) \<le> ro"
        "if finalSize (objs ! hd (drop k rs)) > 0
              then ro < global_headOffset (objs ! hd (drop k rs)) + finalSize (objs ! hd (drop k rs))
              else finalSize (objs ! hd (drop k rs)) = 0"
        "list_all (\<lambda>r. length (buffer (objs ! r)) = P) (take k rs)"
        by blast
      show ?thesis using True p(1,2) k
        by (intro exI[of _ "Suc k"]) (simp add: returnBuffer_def)
    qed
  qed
qed

lemma stream_ok_registerReadOffset:
  assumes "stream_ok P s (pool, w)" and "global_readOffset w \<le> ro"
  shows "\<exists>pool' w'. registerReadOffset ro (pool, w) = (None, (pool', w'))
           \<and> stream_ok P s (pool', w') \<and> global_readOffset w' = ro
           \<and> global_writeOffset w' = global_writeOffset w \<and> port w' = port w
           \<and> page_objs w' = page_objs w
           \<and> (if finalSize (page_objs w' ! hd (pages w')) > 0
               then ro < global_headOffset (page_objs w' ! hd (pages w'))
                           + finalSize (page_objs w' ! hd (pages w'))
               else finalSize (page_objs w' ! hd (pages w')) = 0)"
proof -
  note ok = stream_okD[OF assms(1)]
  have h: "global_headOffset (page_objs w ! hd (pages w)) \<le> ro" using ok(4) assms(2) by simp
  from freePages_stored[OF ok(5)[unfolded live_def] h, of pool]
  obtain k where k: "k < length (pages w)"
    "freePages (page_objs w) ro (pages w) pool =
       (None, drop k (pages w), rev (map (\<lambda>r. buffer (page_objs w ! r)) (take k (pages w))) @ pool)"
    "stored P s (global_writeOffset w) (map (\<lambda>r. page_objs w ! r) (drop k (pages w)))"
    "global_headOffset (page_objs w ! hd (drop k (pages w))) \<le> ro"
    "if finalSize (page_objs w ! hd (drop k (pages w))) > 0
       then ro < global_headOffset (page_objs w ! hd (drop k (pages w)))
                   + finalSize (page_objs w ! hd (drop k (pages w)))
       else finalSize (page_objs w ! hd (drop k (pages w))) = 0"
    "list_all (\<lambda>r. length (buffer (page_objs w ! r)) = P) (take k (pages w))"
    by blast
  let ?pool' = "rev (map (\<lambda>r. buffer (page_objs w ! r)) (take k (pages w))) @ pool"
  let ?w' = "w\<lparr>global_readOffset := ro, pages := drop k (pages w)\<rparr>"
  have r: "registerReadOffset ro (pool, w) = (None, (?pool', ?w'))"
    using assms(2) k(2) by (simp add: registerReadOffset_def)
  have pk: "pages_ok ?w'"
    using pages_ok_registerReadOffset[OF ok(1), of ro pool] r by simp
  have pl: "list_all (\<lambda>b. length b = P) ?pool'"
    using ok(2) k(6) by (auto simp: list_all_iff)
  have "stream_ok P s (?pool', ?w')"
    using pk pl ok(3) k(3,4) by (simp add: stream_ok_def live_def)
  then show ?thesis using r k(5) by simp
qed

lemma stream_ok_registerReadOffset_any:
  assumes "stream_ok P s st"
  shows "stream_ok P s (snd (registerReadOffset ro st))"
proof -
  obtain pool w where st: "st = (pool, w)" by (cases st)
  show ?thesis
  proof (cases "ro < global_readOffset w")
    case True
    then show ?thesis using assms st by (simp add: registerReadOffset_def)
  next
    case False
    then have "global_readOffset w \<le> ro" by simp
    from stream_ok_registerReadOffset[OF assms[unfolded st] this] show ?thesis
      using st by auto
  qed
qed

lemma stream_ok_fields:
  "stream_ok P s (pool, w\<lparr>port := b\<rparr>) = stream_ok P s (pool, w)"
  "stream_ok P s (pool, w\<lparr>connected := c\<rparr>) = stream_ok P s (pool, w)"
  "stream_ok P s (pool, w\<lparr>lastPongTime := d\<rparr>) = stream_ok P s (pool, w)"
  "stream_ok P s (pool, w\<lparr>tokenList := e\<rparr>) = stream_ok P s (pool, w)"
  "stream_ok P s (pool, w\<lparr>deleteBlockQueue := f\<rparr>) = stream_ok P s (pool, w)"
  "stream_ok P s (pool, w\<lparr>destroyFnCallback := g\<rparr>) = stream_ok P s (pool, w)"
  by (simp_all add: stream_ok_def pages_ok_fields live_def)

lemma stream_ok_flush:
  assumes "stream_ok P s (pool, w)"
  shows "stream_ok P s (pool, flushMutationGroup w)"
proof -
  have "pages_ok (flushMutationGroup w)"
    using stream_okD(1)[OF assms] by (rule pages_ok_flush)
  moreover have "page_objs (flushMutationGroup w) = page_objs w"
    "pages (flushMutationGroup w) = pages w"
    "global_writeOffset (flushMutationGroup w) = global_writeOffset w"
    "global_readOffset (flushMutationGroup w) = global_readOffset w"
    by (simp_all add: flushMutationGroup_def Let_def split: option.splits)
  ultimately show ?thesis using assms by (simp add: stream_ok_def live_def)
qed


section \<open>Commands stay in one page; replay; token table\<close>

lemma length_bytes_of [simp]: "length (bytes_of k) = length k"
  by (simp add: bytes_of_def)

lemma length_token_command [simp]: "length (token_command k) = length k + 3"
  by (simp add: token_command_def)

lemma length_uint16BE_concat: "length (concat (map uint16BE q)) = 2 * length q"
  by (induction q) (simp_all add: uint16BE_def)

lemma length_remove_command [simp]: "length (remove_command q) = 2 * length q + 3"
  by (simp add: remove_command_def length_uint16BE_concat uint16BE_def)

lemma streamModifyToken_writeCommand:
  assumes "length k \<le> 255" and "writeCommand P (token_command k) st = (None, st')"
  shows "streamModifyToken P k st = (None, st')"
proof -
  let ?n = "1 + 1 + int (length (bytes_of k)) + 1"
  have e: "int (length (token_command k)) = ?n" by simp
  obtain v pool w where a: "allocCommandBuffer P ?n st = (v, (pool, w))"
    by (metis prod.exhaust)
  have "writeCommand P (token_command k) st
          = (if view_len v < length (token_command k) then Some RangeError else None,
             (pool, write_view v (token_command k) w))"
    unfolding writeCommand_def e using a by simp
  with assms(2) have fit: "\<not> view_len v < length k + 3"
    and st': "st' = (pool, write_view v (token_command k) w)"
    by (auto split: if_splits)
  show ?thesis
    using assms(1) a fit st' by (simp add: streamModifyToken_def Let_def token_command_def)
qed

lemma flushBlockDeleteQueue_writeCommand:
  assumes "length (deleteBlockQueue w) > 0"
    and "writeCommand P (remove_command (deleteBlockQueue w)) (pool, w) = (None, (pool1, w1))"
  shows "flushBlockDeleteQueue P (pool, w) = (None, (pool1, w1\<lparr>deleteBlockQueue := []\<rparr>))"
proof -
  let ?c = "remove_command (deleteBlockQueue w)"
  let ?n = "1 + 2 * int (length (deleteBlockQueue w)) + 2"
  have e: "int (length ?c) = ?n" by simp
  obtain v pool' w' where a: "allocCommandBuffer P ?n (pool, w) = (v, (pool', w'))"
    by (metis prod.exhaust)
  have c: "CMD_REMOVE_BLOCKS # concat (map uint16BE (deleteBlockQueue w)) @ uint16BE 0 = ?c"
    by (simp add: remove_command_def)
  have "writeCommand P ?c (pool, w)
          = (if view_len v < length ?c then Some RangeError else None, (pool', write_view v ?c w'))"
    unfolding writeCommand_def e using a by simp
  with assms(2) have fit: "\<not> view_len v < length ?c" and p: "pool1 = pool'"
    and w: "w1 = write_view v ?c w'"
    by (auto split: if_splits)
  from fit have "\<not> view_len v < 1 + 2 * length (deleteBlockQueue w) + 2" by simp
  then show ?thesis
    using assms(1) a p w by (simp add: flushBlockDeleteQueue_def c)
qed

lemma stream_ok_state_fields:
  "stream_ok P s (fst st, (snd st)\<lparr>tokenList := e\<rparr>) = stream_ok P s st"
  "stream_ok P s (fst st, (snd st)\<lparr>deleteBlockQueue := f\<rparr>) = stream_ok P s st"
  "stream_ok P s (fst st, (snd st)\<lparr>connected := c\<rparr>) = stream_ok P s st"
  by (cases st; simp add: stream_ok_fields)+

lemma stream_ok_registerAttrKey:
  assumes "stream_ok P s st" and "well_sized P (RegisterAttrKey k) (snd st)"
  shows "stream_ok P (s @ emitted (RegisterAttrKey k) (snd st)) (snd (registerAttrKey P k st))"
proof -
  obtain pool w where st: "st = (pool, w)" by (cases st)
  show ?thesis
  proof (cases "tokenList_has (tokenList w) k")
    case True
    then show ?thesis using assms(1) st by (simp add: registerAttrKey_def)
  next
    case False
    let ?s1 = "(pool, w\<lparr>tokenList := AList.update k (length (tokenList w)) (tokenList w)\<rparr>)"
    have k: "length k \<le> 255" "length (token_command k) \<le> P"
      using assms(2) st False by simp_all
    have ok1: "stream_ok P s ?s1" using assms(1) st by (simp add: stream_ok_fields)
    have "0 < length (token_command k)" by simp
    from stream_ok_writeCommand[OF ok1 this k(2)]
    obtain st' where w: "writeCommand P (token_command k) ?s1 = (None, st')"
      and ok: "stream_ok P (s @ token_command k) st'"
      by auto
    have "streamModifyToken P k ?s1 = (None, st')"
      using k(1) w by (rule streamModifyToken_writeCommand)
    then have "stream_ok P (s @ token_command k) (snd (streamModifyToken P k ?s1))"
      using ok by simp
    then show ?thesis
      using False st
      by (cases "streamModifyToken P k ?s1"; cases "fst (streamModifyToken P k ?s1)")
         (auto simp: registerAttrKey_def Let_def)
  qed
qed

lemma stream_ok_flushBlockDeleteQueue:
  assumes "stream_ok P s st" and "well_sized P FlushBlockDeleteQueue (snd st)"
  shows "\<exists>st'. flushBlockDeleteQueue P st = (None, st')
           \<and> stream_ok P (s @ emitted FlushBlockDeleteQueue (snd st)) st'
           \<and> deleteBlockQueue (snd st') = []"
proof -
  obtain pool w where st: "st = (pool, w)" by (cases st)
  show ?thesis
  proof (cases "length (deleteBlockQueue w) > 0")
    case False
    then show ?thesis using assms(1) st by (simp add: flushBlockDeleteQueue_def)
  next
    case True
    let ?c = "remove_command (deleteBlockQueue w)"
    have "0 < length ?c" "length ?c \<le> P" using assms(2) st True by simp_all
    from stream_ok_writeCommand[OF assms(1) this[unfolded st[symmetric]]]
    obtain pool1 w1 where w: "writeCommand P ?c (pool, w) = (None, (pool1, w1))"
      and ok: "stream_ok P (s @ ?c) (pool1, w1)"
      using st by auto
    have "stream_ok P (s @ ?c) (pool1, w1\<lparr>deleteBlockQueue := []\<rparr>)"
      using ok by (simp add: stream_ok_fields)
    then show ?thesis
      using True st by (simp add: flushBlockDeleteQueue_writeCommand[OF True w])
  qed
qed

lemma stream_ok_handleBlockCleanup:
  assumes "stream_ok P s st" and "well_sized P (HandleBlockCleanup b) (snd st)"
  shows "stream_ok P (s @ emitted (HandleBlockCleanup b) (snd st))
           (snd (handleBlockCleanup P b st))"
proof (cases "length (deleteBlockQueue (snd st)) = 1000")
  case True
  then have "well_sized P FlushBlockDeleteQueue (snd st)"
    "emitted FlushBlockDeleteQueue (snd st) = emitted (HandleBlockCleanup b) (snd st)"
    using assms(2) by simp_all
  with stream_ok_flushBlockDeleteQueue[OF assms(1)]
  obtain pool1 w1 where f: "flushBlockDeleteQueue P st = (None, (pool1, w1))"
    and ok: "stream_ok P (s @ emitted (HandleBlockCleanup b) (snd st)) (pool1, w1)"
    and q: "deleteBlockQueue w1 = []"
    by auto
  show ?thesis
    using True f ok q by (simp add: handleBlockCleanup_def stream_ok_fields)
next
  case False
  then show ?thesis
    using assms(1) by (cases st) (simp add: handleBlockCleanup_def stream_ok_fields)
qed

lemma stream_ok_restream:
  "stream_ok P s (pool, w) \<Longrightarrow> stream_ok P s (pool, snd (restreamUnreadPages w))"
  by (cases "restreamPages (page_objs w) (global_writeOffset w) (pages w) (global_readOffset w)")
     (simp add: restreamUnreadPages_def stream_ok_fields)

lemma stream_ok_reconnect:
  assumes "stream_ok P s st"
  shows "stream_ok P s (snd (reconnect prt now ro st))"
proof -
  obtain pool w where st: "st = (pool, w)" by (cases st)
  let ?w1 = "w\<lparr>port := prt, connected := True, lastPongTime := now\<rparr>"
  obtain e pool1 w1 where r: "registerReadOffset ro (pool, ?w1) = (e, (pool1, w1))"
    by (metis prod.exhaust)
  have "stream_ok P s (pool, ?w1)" using assms st by (simp add: stream_ok_fields)
  from stream_ok_registerReadOffset_any[OF this, of ro] have w1: "stream_ok P s (pool1, w1)"
    using r by simp
  then have "stream_ok P s (pool1, snd (restreamUnreadPages w1))" by (rule stream_ok_restream)
  then show ?thesis
    using st r w1
    by (cases e; cases "restreamUnreadPages w1") (simp_all add: reconnect_def)
qed

lemma stream_ok_registerPong:
  assumes "stream_ok P s st"
  shows "stream_ok P s (snd (registerPong now ro st))"
proof -
  obtain pool w where st: "st = (pool, w)" by (cases st)
  have "stream_ok P s (pool, w\<lparr>lastPongTime := now, connected := True\<rparr>)"
    using assms st by (simp add: stream_ok_fields)
  from stream_ok_registerReadOffset_any[OF this, of ro] show ?thesis
    using st by (simp add: registerPong_def)
qed

lemma stream_ok_perform:
  assumes "stream_ok P s st" and "well_sized P a (snd st)"
  shows "stream_ok P (s @ emitted a (snd st)) (perform P a st)"
proof (cases a)
  case (Command bs)
  then show ?thesis
    using stream_ok_writeCommand[OF assms(1), of bs] assms(2) by auto
next
  case (RegisterAttrKey k)
  then show ?thesis using stream_ok_registerAttrKey[OF assms(1), of k] assms(2) by simp
next
  case (RegisterStyleKey k)
  then show ?thesis
    using stream_ok_registerAttrKey[OF assms(1), of k] assms(2) by (simp add: registerStyleKey_eq)
next
  case (HandleBlockCleanup b)
  then show ?thesis using stream_ok_handleBlockCleanup[OF assms(1), of b] assms(2) by simp
next
  case FlushBlockDeleteQueue
  then show ?thesis using stream_ok_flushBlockDeleteQueue[OF assms(1)] assms(2) by auto
next
  case FlushMutationGroup
  then show ?thesis using stream_ok_flush[of P s "fst st" "snd st"] assms(1) by simp
next
  case (RegisterPong now ro)
  then show ?thesis using stream_ok_registerPong[OF assms(1)] by simp
next
  case (Reconnect prt now ro)
  then show ?thesis using stream_ok_reconnect[OF assms(1)] by simp
next
  case Disconnect
  then show ?thesis using assms(1) by (simp add: disconnect_def stream_ok_state_fields)
qed

lemma stream_ok_run:
  assumes "stream_ok P s st" and "all_sized P acts st"
  shows "stream_ok P (s @ produced P acts st) (run P acts st)"
  using assms
proof (induction acts arbitrary: s st)
  case Nil
  then show ?case by (simp add: run_def)
next
  case (Cons a acts)
  from Cons.prems have "stream_ok P (s @ emitted a (snd st)) (perform P a st)"
    by (intro stream_ok_perform) simp_all
  moreover have "all_sized P acts (perform P a st)" using Cons.prems(2) by simp
  ultimately have "stream_ok P ((s @ emitted a (snd st)) @ produced P acts (perform P a st))
      (run P acts (perform P a st))"
    by (rule Cons.IH)
  then show ?case by (simp add: run_def)
qed

lemma new_window_form:
  assumes "22 < P" and "length (fst (bufferPool_alloc P pool0)) = P"
  shows "new_window P now wid prt pool0 =
           (None, (snd (bufferPool_alloc P pool0),
            \<lparr>window_id = wid, port = prt, destroyFnCallback = None, connected = True,
               page_objs = [\<lparr>global_headOffset = 0,
                             buffer = (CMD_INIT_WINDOW # take 21 (bytes_of wid))
                                @ drop (length (CMD_INIT_WINDOW # take 21 (bytes_of wid)))
                                    (fst (bufferPool_alloc P pool0)),
                             finalSize = 0\<rparr>],
               pages = [0], global_readOffset = 0, global_writeOffset = 22,
               mutationGroup = Some \<lparr>mg_page = 0, pageStartOffset = 0\<rparr>,
               deleteBlockQueue = [], tokenList = [([], 0)], lastPongTime = now\<rparr>))"
proof -
  let ?w = "\<lparr>window_id = wid, port = prt, destroyFnCallback = None,
                     connected = True, page_objs = [], pages = [],
                     global_readOffset = 0, global_writeOffset = 0, mutationGroup = None,
                     deleteBlockQueue = [], tokenList = [], lastPongTime = 0\<rparr>"
  have b: "blank ?w" by (simp add: blank_def)
  have r: "rel_index P 22 = 22" using assms(1) by (simp add: rel_index_def)
  have m: "min (length wid) 21 \<le> 21" by simp
  show ?thesis
    using assms r
    by (simp add: new_window_def streamInitWindow_def allocCommandBuffer_def
        openMutationGroup_blank[OF b] Let_def view_of_def subarray_range_def write_view_def
        rel_index_def min_def)
qed

lemma stream_ok_new_window:
  assumes "22 < P" and "list_all (\<lambda>b. length b = P) pool0"
  shows "stream_ok P (init_command (snd (new_window P now wid prt pool0)))
           (snd (new_window P now wid prt pool0))"
proof -
  note pa = pool_alloc_ok[OF assms(2)]
  let ?cmd = "CMD_INIT_WINDOW # take 21 (bytes_of wid)"
  let ?buf = "?cmd @ drop (length ?cmd) (fst (bufferPool_alloc P pool0))"
  have lc: "length ?cmd \<le> 22" by simp
  have lb: "length ?buf = P" using pa(1) assms(1) lc by simp
  have pk: "pages_ok (snd (snd (new_window P now wid prt pool0)))" by (rule pages_ok_new_window)
  have li: "length (take 22 ?buf) = 22" using lb assms(1) by simp
  show ?thesis
    using pk pa(2) lb li assms(1)
    by (simp add: new_window_form[OF assms(1) pa(1)] stream_ok_def init_command_def live_def)
qed

lemma rel_index_le: "rel_index len i \<le> len"
  by (auto simp: rel_index_def)

lemma alloc_view_in_page:
  assumes "pages_ok w" and "allocCommandBuffer P sz (pool, w) = (v, (pool', w'))"
  shows "view_page v = last (pages w')
         \<and> view_start v + view_len v \<le> length (buffer (page_objs w' ! view_page v))"
proof -
  have pk: "pages_ok w'"
    using pages_ok_alloc[OF assms(1), of P sz pool] assms(2) by simp
  have lp: "last (pages w') = length (page_objs w') - 1" using pages_okD(4)[OF pk] .
  have ne: "page_objs w \<noteq> []" using pages_okD(3)[OF assms(1)] .
  show ?thesis
  proof (cases "tail_used w + sz < int P")
    case True
    let ?len = "length (buffer (page_objs w ! tail_ref w))"
    have "rel_index ?len (tail_used w) + (rel_index ?len (tail_used w + sz) - rel_index ?len (tail_used w))
            \<le> ?len"
      using rel_index_le[of ?len "tail_used w"] rel_index_le[of ?len "tail_used w + sz"] by arith
    then show ?thesis
      using assms(2) lp
      by (auto simp: alloc_fits[OF assms(1) True] view_of_def subarray_range_def tail_ref_def)
  next
    case False
    then have ov: "tail_used w + sz \<ge> int P" by simp
    show ?thesis
      using assms(2) lp rel_index_le[of "length (fst (bufferPool_alloc P pool))" sz]
      by (auto simp: alloc_overflow[OF assms(1) ov] nth_append)
  qed
qed

text \<open>
  Claim C2. After any sequence of calls, the range \<open>_allocCommandBuffer\<close> returns is a range
  of the buffer of one page, the last page of the array. When every command so far had
  between 1 and \<open>PAGE_SIZE\<close> bytes and so has this one, the range has exactly the bytes
  asked for and starts at the write offset; when the bytes do not fit behind the bytes the
  last page holds (\<open>used + size \<ge> PAGE_SIZE\<close>), that page is sealed with the size it has
  and the range is the start of a new page.
\<close>

theorem command_bytes_in_one_page:
  "(case allocCommandBuffer P sz (run P acts (snd (new_window P t0 wid prt pool0))) of
      (v, (pool', w')) \<Rightarrow>
        view_page v = last (pages w')
        \<and> view_start v + view_len v \<le> length (buffer (page_objs w' ! view_page v)))
   \<and> (22 < P \<and> list_all (\<lambda>b. length b = P) pool0
        \<and> all_sized P acts (snd (new_window P t0 wid prt pool0)) \<and> 0 < n \<and> n \<le> P \<longrightarrow>
      (case run P acts (snd (new_window P t0 wid prt pool0)) of (pool, w) \<Rightarrow>
         (case allocCommandBuffer P (int n) (pool, w) of (v, (pool', w')) \<Rightarrow>
            view_len v = n \<and> length (buffer (page_objs w' ! view_page v)) = P
            \<and> global_headOffset (page_objs w' ! view_page v) + int (view_start v)
                = global_writeOffset w
            \<and> global_writeOffset w' = global_writeOffset w + int n
            \<and> (if tail_used w + int n \<ge> int P
                then finalSize (page_objs w' ! last (pages w)) = tail_used w
                     \<and> pages w' = pages w @ [view_page v] \<and> view_start v = 0
                else pages w' = pages w))))"
proof -
  let ?st0 = "snd (new_window P t0 wid prt pool0)"
  obtain pool w where r: "run P acts ?st0 = (pool, w)" by (metis prod.exhaust)
  have "live_ok (snd (run P acts ?st0))" by (rule live_ok_reachable)
  then have pk: "pages_ok w" using r by (simp add: live_ok_def)
  obtain v pool' w' where a: "allocCommandBuffer P sz (pool, w) = (v, (pool', w'))"
    by (metis prod.exhaust)
  have one: "case allocCommandBuffer P sz (run P acts ?st0) of
      (v, (pool', w')) \<Rightarrow>
        view_page v = last (pages w')
        \<and> view_start v + view_len v \<le> length (buffer (page_objs w' ! view_page v))"
    using alloc_view_in_page[OF pk a] r a by auto
  have two: "case run P acts ?st0 of (pool, w) \<Rightarrow>
         (case allocCommandBuffer P (int n) (pool, w) of (v, (pool', w')) \<Rightarrow>
            view_len v = n \<and> length (buffer (page_objs w' ! view_page v)) = P
            \<and> global_headOffset (page_objs w' ! view_page v) + int (view_start v)
                = global_writeOffset w
            \<and> global_writeOffset w' = global_writeOffset w + int n
            \<and> (if tail_used w + int n \<ge> int P
                then finalSize (page_objs w' ! last (pages w)) = tail_used w
                     \<and> pages w' = pages w @ [view_page v] \<and> view_start v = 0
                else pages w' = pages w))"
    if h: "22 < P \<and> list_all (\<lambda>b. length b = P) pool0
        \<and> all_sized P acts ?st0 \<and> 0 < n \<and> n \<le> P"
  proof -
    from h have "stream_ok P (init_command ?st0) ?st0" by (intro stream_ok_new_window) simp_all
    with h have "stream_ok P (init_command ?st0 @ produced P acts ?st0) (run P acts ?st0)"
      by (intro stream_ok_run) simp_all
    then have ok: "stream_ok P (init_command ?st0 @ produced P acts ?st0) (pool, w)"
      using r by simp
    note tl = stream_ok_tail[OF ok]
    have lp: "last (pages w) = tail_ref w" using pages_okD(4)[OF pk] by (simp add: tail_ref_def)
    obtain bs :: buffer where bs: "length bs = n" using Ex_list_of_length by blast
    show ?thesis
    proof (cases "tail_used w + int n < int P")
      case True
      from alloc_fits_stream[OF ok bs True] show ?thesis
        using r tl True lp by (auto simp: tail_used_def)
    next
      case False
      then have ov: "tail_used w + int n \<ge> int P" by simp
      from alloc_overflow_stream[OF ok bs _ _ ov] h show ?thesis
        using r lp ov by auto
    qed
  qed
  show ?thesis using one two by blast
qed


lemma streamModifyToken_tokenList:
  "tokenList (snd (snd (streamModifyToken P k st))) = tokenList (snd st)"
proof -
  let ?n = "1 + 1 + int (length (bytes_of k)) + 1"
  obtain v pool1 w1 where a: "allocCommandBuffer P ?n st = (v, (pool1, w1))"
    by (metis prod.exhaust)
  from alloc_session[of P ?n st] a have "tokenList w1 = tokenList (snd st)"
    by (simp add: session_def)
  then show ?thesis
    using a by (simp add: streamModifyToken_def Let_def write_view_def)
qed

lemma registerAttrKey_known:
  assumes "tokenList_has (tokenList (snd st)) k"
  shows "registerAttrKey P k st = (Inr (map_of (tokenList (snd st)) k), st)"
  using assms by (cases st) (simp add: registerAttrKey_def)



theorem command_bytes_in_one_page_witness:
  "(22::nat) < 32
   \<and> list_all (\<lambda>b. length b = 32) [replicate 32 (255::byte)]
   \<and> all_sized 32 [Command [1, 2, 3, 4, 5]] (snd (new_window 32 0 ''w'' [] [replicate 32 255]))
   \<and> tail_used (snd (run 32 [Command [1, 2, 3, 4, 5]]
                        (snd (new_window 32 0 ''w'' [] [replicate 32 255])))) = 27
   \<and> view_len (fst (allocCommandBuffer 32 6 (run 32 [Command [1, 2, 3, 4, 5]]
                        (snd (new_window 32 0 ''w'' [] [replicate 32 255]))))) = 6
   \<and> view_start (fst (allocCommandBuffer 32 6 (run 32 [Command [1, 2, 3, 4, 5]]
                        (snd (new_window 32 0 ''w'' [] [replicate 32 255]))))) = 0
   \<and> pages (snd (snd (allocCommandBuffer 32 6 (run 32 [Command [1, 2, 3, 4, 5]]
                        (snd (new_window 32 0 ''w'' [] [replicate 32 255])))))) = [0, 1]"
proof -
  let ?acts = "[Command [1, 2, 3, 4, 5]]"
  let ?st0 = "snd (new_window 32 0 ''w'' [] [replicate 32 (255::byte)])"
  obtain pool w where r: "run 32 ?acts ?st0 = (pool, w)" by (metis prod.exhaust)
  obtain v pool' w' where a: "allocCommandBuffer 32 (int 6) (pool, w) = (v, (pool', w'))"
    by (metis prod.exhaust)
  have h1: "(22::nat) < 32" by simp
  have h2: "list_all (\<lambda>b. length b = 32) [replicate 32 (255::byte)]" by simp
  have h3: "all_sized 32 ?acts ?st0" by code_simp
  have h4: "tail_used (snd (run 32 ?acts ?st0)) = 27" by code_simp
  then have tu: "tail_used w = 27" using r by simp
  have h5: "pages (snd (snd (allocCommandBuffer 32 6 (run 32 ?acts ?st0)))) = [0, 1]"
    by code_simp
  from command_bytes_in_one_page[where P = 32 and acts = ?acts and ?t0.0 = 0 and wid = "''w''"
      and prt = "[]" and ?pool0.0 = "[replicate 32 255]" and n = 6 and sz = 0] h1 h2 h3
  have "view_len v = 6 \<and> view_start v = 0"
    using r a tu by simp
  then show ?thesis using h1 h2 h3 h4 h5 r a by simp
qed

section \<open>Blocks keep their size\<close>

lemma buffers_ok_fields:
  "buffers_ok P (w\<lparr>port := b\<rparr>) = buffers_ok P w"
  "buffers_ok P (w\<lparr>connected := c\<rparr>) = buffers_ok P w"
  "buffers_ok P (w\<lparr>lastPongTime := d\<rparr>) = buffers_ok P w"
  "buffers_ok P (w\<lparr>tokenList := e\<rparr>) = buffers_ok P w"
  "buffers_ok P (w\<lparr>deleteBlockQueue := f\<rparr>) = buffers_ok P w"
  "buffers_ok P (w\<lparr>destroyFnCallback := g\<rparr>) = buffers_ok P w"
  "buffers_ok P (w\<lparr>global_readOffset := a\<rparr>) = buffers_ok P w"
  "buffers_ok P (w\<lparr>pages := h\<rparr>) = buffers_ok P w"
  "buffers_ok P (w\<lparr>mutationGroup := i\<rparr>) = buffers_ok P w"
  by (simp_all add: buffers_ok_def)

lemma buffers_ok_nth:
  assumes "buffers_ok P w" and "r < length (page_objs w)"
  shows "length (buffer (page_objs w ! r)) = P"
  using assms by (simp add: buffers_ok_def list_all_length)

lemma buffers_ok_write_view:
  assumes "buffers_ok P w"
    and "view_start v + view_len v \<le> length (buffer (page_objs w ! view_page v))"
  shows "buffers_ok P (write_view v bs w)"
proof (cases "view_page v < length (page_objs w)")
  case True
  let ?pg = "page_objs w ! view_page v"
  let ?bs = "take (view_len v) bs"
  have "length ?bs \<le> view_len v" by simp
  then have "view_start v + length ?bs \<le> length (buffer ?pg)" using assms(2) by arith
  then have "length (take (view_start v) (buffer ?pg) @ ?bs
                @ drop (view_start v + length ?bs) (buffer ?pg)) = length (buffer ?pg)"
    by simp
  moreover have "length (buffer ?pg) = P" using buffers_ok_nth[OF assms(1) True] .
  ultimately have n: "length (take (view_start v) (buffer ?pg) @ ?bs
                @ drop (view_start v + length ?bs) (buffer ?pg)) = P"
    by simp
  show ?thesis
    using assms(1) n
    by (auto simp: write_view_def Let_def buffers_ok_def list_all_iff
        dest!: set_update_subset_insert[THEN subsetD])
next
  case False
  then show ?thesis using assms(1)
    by (simp add: write_view_def Let_def buffers_ok_def list_update_beyond)
qed

lemma blocks_ok_alloc:
  assumes "pages_ok w" and "blocks_ok P (pool, w)"
    and "allocCommandBuffer P sz (pool, w) = (v, (pool', w'))"
  shows "blocks_ok P (pool', w')"
proof -
  from assms(2) have bo: "buffers_ok P w" and po: "list_all (\<lambda>b. length b = P) pool"
    by (simp_all add: blocks_ok_def)
  have t: "tail_ref w < length (page_objs w)"
    using pages_okD(3)[OF assms(1)] by (simp add: tail_ref_def)
  have len: "length (buffer (page_objs w ! tail_ref w)) = P"
    using buffers_ok_nth[OF bo t] .
  note pa = pool_alloc_ok[OF po]
  show ?thesis
  proof (cases "tail_used w + sz < int P")
    case True
    then show ?thesis
      using assms(3) bo po
      by (auto simp: alloc_fits[OF assms(1) True] blocks_ok_def buffers_ok_def)
  next
    case False
    then have ov: "tail_used w + sz \<ge> int P" by simp
    have "list_all (\<lambda>p. length (buffer p) = P)
            ((page_objs w)[tail_ref w := (page_objs w ! tail_ref w)\<lparr>finalSize := tail_used w\<rparr>])"
      using bo len
      by (auto simp: buffers_ok_def list_all_iff dest!: set_update_subset_insert[THEN subsetD])
    then show ?thesis
      using assms(3) pa
      by (auto simp: alloc_overflow[OF assms(1) ov] blocks_ok_def buffers_ok_def)
  qed
qed

lemma alloc_sized:
  assumes "live_ok w" and "blocks_ok P (pool, w)" and "0 \<le> sz" and "sz \<le> int P"
    and "allocCommandBuffer P sz (pool, w) = (v, (pool', w'))"
  shows "view_len v = nat sz"
proof -
  from assms(1) have pk: "pages_ok w" and ok: "offsets_ok w" by (simp_all add: live_ok_def)
  from assms(2) have bo: "buffers_ok P w" and po: "list_all (\<lambda>b. length b = P) pool"
    by (simp_all add: blocks_ok_def)
  have t: "tail_ref w < length (page_objs w)"
    using pages_okD(3)[OF pk] by (simp add: tail_ref_def)
  have len: "length (buffer (page_objs w ! tail_ref w)) = P"
    using buffers_ok_nth[OF bo t] .
  have "page_objs w ! tail_ref w \<in> set (page_objs w)" using t by simp
  then have tu: "0 \<le> tail_used w"
    using ok by (simp add: offsets_ok_def list_all_iff tail_used_def)
  note pa = pool_alloc_ok[OF po]
  show ?thesis
  proof (cases "tail_used w + sz < int P")
    case True
    have "rel_index P (tail_used w + sz) - rel_index P (tail_used w) = nat sz"
      using True tu assms(3) by (simp add: rel_index_def)
    then show ?thesis
      using assms(5) len
      by (auto simp: alloc_fits[OF pk True] view_of_def subarray_range_def)
  next
    case False
    then have ov: "tail_used w + sz \<ge> int P" by simp
    have r: "rel_index P sz = nat sz" using assms(3,4) by (simp add: rel_index_def)
    show ?thesis
      using assms(5) pa r by (auto simp: alloc_overflow[OF pk ov])
  qed
qed

lemma blocks_ok_alloc_write:
  assumes "pages_ok (snd s)" and "blocks_ok P s"
    and "allocCommandBuffer P sz s = (v, (pool, w))"
  shows "blocks_ok P (pool, write_view v bs w)"
proof -
  obtain pool0 w0 where s: "s = (pool0, w0)" by (cases s)
  have pk: "pages_ok w0" using assms(1) s by simp
  have a: "allocCommandBuffer P sz (pool0, w0) = (v, (pool, w))" using assms(3) s by simp
  have b: "blocks_ok P (pool, w)" using blocks_ok_alloc[OF pk _ a] assms(2) s by simp
  have "view_start v + view_len v \<le> length (buffer (page_objs w ! view_page v))"
    using alloc_view_in_page[OF pk a] by (rule conjunct2)
  then have "buffers_ok P (write_view v bs w)"
    using b by (intro buffers_ok_write_view) (simp_all add: blocks_ok_def)
  then show ?thesis using b by (simp add: blocks_ok_def)
qed

lemma blocks_ok_fields:
  "blocks_ok P (pool, w\<lparr>port := b\<rparr>) = blocks_ok P (pool, w)"
  "blocks_ok P (pool, w\<lparr>connected := c\<rparr>) = blocks_ok P (pool, w)"
  "blocks_ok P (pool, w\<lparr>lastPongTime := d\<rparr>) = blocks_ok P (pool, w)"
  "blocks_ok P (pool, w\<lparr>tokenList := e\<rparr>) = blocks_ok P (pool, w)"
  "blocks_ok P (pool, w\<lparr>deleteBlockQueue := f\<rparr>) = blocks_ok P (pool, w)"
  "blocks_ok P (pool, w\<lparr>destroyFnCallback := g\<rparr>) = blocks_ok P (pool, w)"
  "blocks_ok P (pool, w\<lparr>global_readOffset := a\<rparr>) = blocks_ok P (pool, w)"
  "blocks_ok P (pool, w\<lparr>mutationGroup := i\<rparr>) = blocks_ok P (pool, w)"
  by (simp_all add: blocks_ok_def buffers_ok_fields)

lemma blocks_ok_writeCommand:
  assumes "pages_ok (snd s)" and "blocks_ok P s"
  shows "blocks_ok P (snd (writeCommand P bs s))"
  using blocks_ok_alloc_write[OF assms]
  by (cases "allocCommandBuffer P (int (length bs)) s") (auto simp: writeCommand_def)

lemma blocks_ok_streamModifyToken:
  assumes "pages_ok (snd s)" and "blocks_ok P s"
  shows "blocks_ok P (snd (streamModifyToken P k s))"
  using blocks_ok_alloc_write[OF assms]
  by (cases "allocCommandBuffer P (1 + 1 + int (length (bytes_of k)) + 1) s")
     (auto simp: streamModifyToken_def Let_def)

lemma blocks_ok_registerAttrKey:
  assumes "pages_ok (snd s)" and "blocks_ok P s"
  shows "blocks_ok P (snd (registerAttrKey P k s))"
proof -
  obtain pool w where s: "s = (pool, w)" by (cases s)
  let ?s1 = "(pool, w\<lparr>tokenList := AList.update k (length (tokenList w)) (tokenList w)\<rparr>)"
  have "pages_ok (snd ?s1)" "blocks_ok P ?s1"
    using assms s by (simp_all add: pages_ok_fields blocks_ok_fields)
  then have "blocks_ok P (snd (streamModifyToken P k ?s1))"
    by (rule blocks_ok_streamModifyToken)
  then show ?thesis
    using assms s
    by (cases "streamModifyToken P k ?s1"; cases "fst (streamModifyToken P k ?s1)")
       (auto simp: registerAttrKey_def Let_def)
qed

lemma blocks_ok_flushBlockDeleteQueue:
  assumes "pages_ok (snd s)" and "blocks_ok P s"
  shows "blocks_ok P (snd (flushBlockDeleteQueue P s))"
proof -
  obtain pool w where s: "s = (pool, w)" by (cases s)
  let ?sz = "1 + 2 * int (length (deleteBlockQueue w)) + 2"
  show ?thesis
    using blocks_ok_alloc_write[OF assms, of ?sz] assms s
    by (cases "allocCommandBuffer P ?sz s")
       (auto simp: flushBlockDeleteQueue_def blocks_ok_fields)
qed

lemma blocks_ok_handleBlockCleanup:
  assumes "pages_ok (snd s)" and "blocks_ok P s"
  shows "blocks_ok P (snd (handleBlockCleanup P b s))"
  using blocks_ok_flushBlockDeleteQueue[OF assms] assms
  by (cases "flushBlockDeleteQueue P s"; cases "fst (flushBlockDeleteQueue P s)"; cases s)
     (auto simp: handleBlockCleanup_def blocks_ok_fields)

lemma blocks_ok_flush:
  "blocks_ok P (pool, flushMutationGroup w) = blocks_ok P (pool, w)"
  by (simp add: flushMutationGroup_def Let_def blocks_ok_def buffers_ok_def split: option.splits)

lemma returned_sized:
  assumes "pages_ok w" and "buffers_ok P w" and "list_all (\<lambda>b. length b = P) pool"
    and "set refs \<subseteq> set (pages w)"
  shows "list_all (\<lambda>b. length b = P) (rev (map (\<lambda>r. buffer (page_objs w ! r)) refs) @ pool)"
proof -
  have "length (buffer (page_objs w ! r)) = P" if "r \<in> set refs" for r
  proof -
    from that assms(4) have "r \<in> set (pages w)" by blast
    with pages_okD(2)[OF assms(1)]
    have "r \<in> set [hd (pages w)..<length (page_objs w)]" by simp
    then have "r < length (page_objs w)" by simp
    with assms(2) show ?thesis by (rule buffers_ok_nth)
  qed
  then show ?thesis using assms(3) by (auto simp: list_all_iff)
qed

lemma blocks_ok_registerReadOffset:
  assumes "pages_ok w" and "blocks_ok P (pool, w)"
  shows "blocks_ok P (snd (registerReadOffset ro (pool, w)))"
proof (cases "ro < global_readOffset w")
  case True
  then show ?thesis using assms(2) by (simp add: registerReadOffset_def)
next
  case False
  from freePages_keeps_tail[OF pages_okD(5)[OF assms(1)] pages_ok_tail_sealed[OF assms(1)],
      of ro pool]
  obtain k where f: "freePages (page_objs w) ro (pages w) pool =
       (None, drop k (pages w), rev (map (\<lambda>r. buffer (page_objs w ! r)) (take k (pages w))) @ pool)"
    by blast
  have "set (take k (pages w)) \<subseteq> set (pages w)" by (rule set_take_subset)
  with assms have "list_all (\<lambda>b. length b = P)
      (rev (map (\<lambda>r. buffer (page_objs w ! r)) (take k (pages w))) @ pool)"
    by (intro returned_sized) (simp_all add: blocks_ok_def)
  then show ?thesis
    using False f assms(2) by (simp add: registerReadOffset_def blocks_ok_def buffers_ok_fields)
qed

lemma blocks_ok_restream:
  "blocks_ok P (pool, snd (restreamUnreadPages w)) = blocks_ok P (pool, w)"
  by (cases "restreamPages (page_objs w) (global_writeOffset w) (pages w) (global_readOffset w)")
     (simp add: restreamUnreadPages_def blocks_ok_fields)

lemma blocks_ok_registerPong:
  assumes "pages_ok (snd s)" and "blocks_ok P s"
  shows "blocks_ok P (snd (registerPong now ro s))"
proof -
  obtain pool w where s: "s = (pool, w)" by (cases s)
  have "pages_ok (w\<lparr>lastPongTime := now, connected := True\<rparr>)"
    "blocks_ok P (pool, w\<lparr>lastPongTime := now, connected := True\<rparr>)"
    using assms s by (simp_all add: pages_ok_fields blocks_ok_fields)
  from blocks_ok_registerReadOffset[OF this] show ?thesis
    using s by (simp add: registerPong_def)
qed

lemma blocks_ok_reconnect:
  assumes "pages_ok (snd s)" and "blocks_ok P s"
  shows "blocks_ok P (snd (reconnect prt now ro s))"
proof -
  obtain pool w where s: "s = (pool, w)" by (cases s)
  let ?w1 = "w\<lparr>port := prt, connected := True, lastPongTime := now\<rparr>"
  obtain e pool1 w1 where r: "registerReadOffset ro (pool, ?w1) = (e, (pool1, w1))"
    by (metis prod.exhaust)
  have "pages_ok ?w1" "blocks_ok P (pool, ?w1)"
    using assms s by (simp_all add: pages_ok_fields blocks_ok_fields)
  from blocks_ok_registerReadOffset[OF this, of ro] have w1: "blocks_ok P (pool1, w1)"
    using r by simp
  then have "blocks_ok P (pool1, snd (restreamUnreadPages w1))" by (simp add: blocks_ok_restream)
  then show ?thesis
    using s r w1
    by (cases e; cases "restreamUnreadPages w1") (simp_all add: reconnect_def)
qed

lemma blocks_ok_perform:
  assumes "pages_ok (snd s)" and "blocks_ok P s"
  shows "blocks_ok P (perform P a s)"
proof (cases a)
  case FlushMutationGroup
  then show ?thesis using assms(2) blocks_ok_flush[of P "fst s" "snd s"] by simp
next
  case Disconnect
  then show ?thesis using assms(2) by (cases s) (simp add: disconnect_def blocks_ok_fields)
qed (use assms in \<open>simp_all add: blocks_ok_writeCommand blocks_ok_registerAttrKey
      registerStyleKey_eq blocks_ok_handleBlockCleanup blocks_ok_flushBlockDeleteQueue
      blocks_ok_registerPong blocks_ok_reconnect\<close>)

lemma blocks_ok_run:
  assumes "pages_ok (snd s)" and "blocks_ok P s"
  shows "blocks_ok P (run P acts s)"
  using assms unfolding run_def
proof (induction acts arbitrary: s)
  case Nil
  then show ?case by simp
next
  case (Cons a acts)
  have "pages_ok (snd (perform P a s))" using Cons.prems(1) by (rule pages_ok_perform)
  moreover have "blocks_ok P (perform P a s)" using Cons.prems by (rule blocks_ok_perform)
  ultimately show ?case using Cons.IH by simp
qed

lemma alloc_blank_sized:
  assumes "blank w" and "list_all (\<lambda>b. length b = P) pool"
    and "allocCommandBuffer P sz (pool, w) = (v, (pool', w'))"
  shows "blocks_ok P (pool', w')"
    and "view_start v + view_len v \<le> length (buffer (page_objs w' ! view_page v))"
proof -
  note pa = pool_alloc_ok[OF assms(2)]
  note pb = pool_alloc_ok[OF pa(2)]
  show "blocks_ok P (pool', w')"
    using assms(3) pa pb
    by (auto simp: allocCommandBuffer_def openMutationGroup_blank[OF assms(1)] Let_def
        allocPage_def flushMutationGroup_def blocks_ok_def buffers_ok_def
        split: prod.splits if_splits)
  show "view_start v + view_len v \<le> length (buffer (page_objs w' ! view_page v))"
    using assms(3)
    by (auto simp: allocCommandBuffer_def openMutationGroup_blank[OF assms(1)] Let_def
        allocPage_def flushMutationGroup_def view_of_def subarray_range_def nth_append
        rel_index_def
        split: prod.splits if_splits)
qed

lemma blocks_ok_new_window:
  assumes "list_all (\<lambda>b. length b = P) pool"
  shows "blocks_ok P (snd (new_window P now wid prt pool))"
proof -
  let ?w = "\<lparr>window_id = wid, port = prt, destroyFnCallback = None,
                     connected = True, page_objs = [], pages = [],
                     global_readOffset = 0, global_writeOffset = 0, mutationGroup = None,
                     deleteBlockQueue = [], tokenList = [], lastPongTime = 0\<rparr>"
  obtain v pool1 w1 where a: "allocCommandBuffer P (1 + 21) (pool, ?w) = (v, (pool1, w1))"
    by (metis prod.exhaust)
  have b: "blank ?w" by (simp add: blank_def)
  note s = alloc_blank_sized[OF b assms a]
  have "buffers_ok P (write_view v bs w1)" for bs
    using s by (intro buffers_ok_write_view) (simp_all add: blocks_ok_def)
  then have "blocks_ok P (pool1, write_view v bs w1)" for bs
    using s(1) by (simp add: blocks_ok_def)
  then show ?thesis
    using a by (simp add: new_window_def streamInitWindow_def blocks_ok_fields)
qed

lemma blocks_ok_reachable:
  assumes "list_all (\<lambda>b. length b = P) pool"
  shows "blocks_ok P (run P acts (snd (new_window P now wid prt pool)))"
  using pages_ok_new_window blocks_ok_new_window[OF assms] by (rule blocks_ok_run)

lemma write_tail_bytes:
  assumes "st + length bs \<le> length b"
  shows "take (length bs) (drop st (take st b @ bs @ drop (st + length bs) b)) = bs"
  using assms by simp

lemma writeCommand_last_bytes:
  assumes "live_ok w" and "blocks_ok P (pool, w)" and "0 < length bs" and "length bs \<le> P"
  shows "\<exists>pool' w'. writeCommand P bs (pool, w) = (None, (pool', w'))
           \<and> global_writeOffset w' = global_writeOffset w + int (length bs)
           \<and> last_bytes (length bs) w' = bs"
proof -
  from assms(1) have pk: "pages_ok w" and ok: "offsets_ok w" by (simp_all add: live_ok_def)
  from assms(2) have bo: "buffers_ok P w" and po: "list_all (\<lambda>b. length b = P) pool"
    by (simp_all add: blocks_ok_def)
  have t: "tail_ref w < length (page_objs w)"
    using pages_okD(3)[OF pk] by (simp add: tail_ref_def)
  have len: "length (buffer (page_objs w ! tail_ref w)) = P"
    using buffers_ok_nth[OF bo t] .
  have "page_objs w ! tail_ref w \<in> set (page_objs w)" using t by simp
  then have tu: "0 \<le> tail_used w"
    using ok by (simp add: offsets_ok_def list_all_iff tail_used_def)
  note pa = pool_alloc_ok[OF po]
  let ?n = "length bs"
  let ?b = "buffer (page_objs w ! tail_ref w)"
  show ?thesis
  proof (cases "tail_used w + int ?n < int P")
    case True
    let ?st = "nat (tail_used w)"
    let ?v = "\<lparr>view_page = tail_ref w, view_start = ?st, view_len = ?n\<rparr>"
    let ?w1 = "w\<lparr>mutationGroup := Some \<lparr>mg_page = tail_ref w, pageStartOffset = group_start w\<rparr>,
                      global_writeOffset := global_writeOffset w + int ?n\<rparr>"
    have r: "rel_index P (tail_used w) = ?st"
      "rel_index P (tail_used w + int ?n) = ?st + ?n"
      using True tu by (simp_all add: rel_index_def nat_add_distrib)
    have v: "view_of w (tail_ref w) (tail_used w) (tail_used w + int ?n) = ?v"
      using len r by (simp add: view_of_def subarray_range_def)
    have a: "allocCommandBuffer P (int ?n) (pool, w) = (?v, (pool, ?w1))"
      using alloc_fits[OF pk True, of pool] v by simp
    have fit: "?st + ?n \<le> length ?b" using True tu len by simp
    let ?w' = "write_view ?v bs ?w1"
    have wc: "writeCommand P bs (pool, w) = (None, (pool, ?w'))"
      using a by (simp add: writeCommand_def)
    have wo: "global_writeOffset ?w' = global_writeOffset w + int ?n"
      by (simp add: write_view_def Let_def)
    have tr: "tail_ref ?w' = tail_ref w" by (simp add: write_view_def Let_def tail_ref_def)
    have buf: "buffer (page_objs ?w' ! tail_ref w) = take ?st ?b @ bs @ drop (?st + ?n) ?b"
      using t by (simp add: write_view_def Let_def)
    have hd: "global_headOffset (page_objs ?w' ! tail_ref w)
                = global_headOffset (page_objs w ! tail_ref w)"
      using t by (simp add: write_view_def Let_def)
    have tu': "tail_used ?w' = tail_used w + int ?n"
      using tr hd wo by (simp add: tail_used_def)
    have "nat (tail_used ?w') - ?n = ?st" using tu' tu by simp
    then have "last_bytes ?n ?w' = take ?n (drop ?st (take ?st ?b @ bs @ drop (?st + ?n) ?b))"
      unfolding last_bytes_def tr buf by simp
    also have "\<dots> = bs" using fit by (rule write_tail_bytes)
    finally show ?thesis using wc wo by blast
  next
    case False
    then have ov: "tail_used w + int ?n \<ge> int P" by simp
    let ?nb = "fst (bufferPool_alloc P pool)"
    have r: "rel_index (length ?nb) (int ?n) = ?n" using assms(4) pa(1) by (simp add: rel_index_def)
    let ?v = "\<lparr>view_page = length (page_objs w), view_start = 0, view_len = ?n\<rparr>"
    from alloc_overflow[OF pk ov, of pool] r
    obtain w1 where a: "allocCommandBuffer P (int ?n) (pool, w) = (?v, (snd (bufferPool_alloc P pool), w1))"
      and po1: "page_objs w1 = (page_objs w)[tail_ref w := (page_objs w ! tail_ref w)\<lparr>finalSize := tail_used w\<rparr>]
                  @ [\<lparr>global_headOffset = global_writeOffset w, buffer = ?nb, finalSize = 0\<rparr>]"
      and wo1: "global_writeOffset w1 = global_writeOffset w + int ?n"
      by simp
    let ?w' = "write_view ?v bs w1"
    have wc: "writeCommand P bs (pool, w) = (None, (snd (bufferPool_alloc P pool), ?w'))"
      using a by (simp add: writeCommand_def)
    have wo: "global_writeOffset ?w' = global_writeOffset w + int ?n"
      using wo1 by (simp add: write_view_def Let_def)
    have l1: "length (page_objs w1) = Suc (length (page_objs w))" using po1 by simp
    have tr: "tail_ref ?w' = length (page_objs w)"
      using l1 by (simp add: write_view_def Let_def tail_ref_def)
    have pg: "page_objs w1 ! length (page_objs w)
                = \<lparr>global_headOffset = global_writeOffset w, buffer = ?nb, finalSize = 0\<rparr>"
      using po1 by (simp add: nth_append)
    have buf: "buffer (page_objs ?w' ! length (page_objs w)) = take 0 ?nb @ bs @ drop (0 + ?n) ?nb"
      using l1 pg by (simp add: write_view_def Let_def)
    have hd: "global_headOffset (page_objs ?w' ! length (page_objs w)) = global_writeOffset w"
      using l1 pg by (simp add: write_view_def Let_def)
    have tu': "tail_used ?w' = int ?n" using tr hd wo by (simp add: tail_used_def)
    have fit: "0 + ?n \<le> length ?nb" using pa(1) assms(4) by simp
    have "last_bytes ?n ?w' = take ?n (drop 0 (take 0 ?nb @ bs @ drop (0 + ?n) ?nb))"
      unfolding last_bytes_def tr buf tu' by simp
    also have "\<dots> = bs" using fit by (rule write_tail_bytes)
    finally show ?thesis using wc wo by blast
  qed
qed

section \<open>The token table\<close>

lemma registerAttrKey_first:
  "tokenList_has (tokenList (snd (snd (registerAttrKey P k st)))) k"
proof (cases "tokenList_has (tokenList (snd st)) k")
  case True
  then show ?thesis by (simp add: registerAttrKey_known)
next
  case False
  obtain pool w where st: "st = (pool, w)" by (cases st)
  let ?s1 = "(pool, w\<lparr>tokenList := AList.update k (length (tokenList w)) (tokenList w)\<rparr>)"
  obtain e pool2 w2 where m: "streamModifyToken P k ?s1 = (e, (pool2, w2))"
    by (metis prod.exhaust)
  from streamModifyToken_tokenList[of P k ?s1] m
  have t: "tokenList w2 = AList.update k (length (tokenList w)) (tokenList w)" by simp
  then have has: "tokenList_has (tokenList w2) k"
    by (simp add: tokenList_has_def update_conv')
  then show ?thesis
    using False st m by (cases e) (auto simp: registerAttrKey_def Let_def)
qed

lemma registerAttrKey_new:
  assumes "live_ok w" and "blocks_ok P (pool, w)" and "\<not> tokenList_has (tokenList w) k"
    and "length k \<le> 255" and "length k + 3 \<le> P"
  shows "\<exists>st1. registerAttrKey P k (pool, w) = (Inr (Some (length (tokenList w))), st1)
           \<and> tokenList (snd st1) = AList.update k (length (tokenList w)) (tokenList w)
           \<and> global_writeOffset (snd st1) = global_writeOffset w + int (length k + 3)
           \<and> last_bytes (length k + 3) (snd st1) = token_command k"
proof -
  let ?w1 = "w\<lparr>tokenList := AList.update k (length (tokenList w)) (tokenList w)\<rparr>"
  have l1: "live_ok ?w1" using assms(1) by (simp add: live_ok_fields)
  have b1: "blocks_ok P (pool, ?w1)" using assms(2) by (simp add: blocks_ok_fields)
  have "0 < length (token_command k)" "length (token_command k) \<le> P" using assms(5) by simp_all
  from writeCommand_last_bytes[OF l1 b1 this]
  obtain pool' w' where wc: "writeCommand P (token_command k) (pool, ?w1) = (None, (pool', w'))"
    and wo: "global_writeOffset w' = global_writeOffset w + int (length k + 3)"
    and lb: "last_bytes (length k + 3) w' = token_command k"
    by auto
  have m: "streamModifyToken P k (pool, ?w1) = (None, (pool', w'))"
    using assms(4) wc by (rule streamModifyToken_writeCommand)
  from streamModifyToken_tokenList[of P k "(pool, ?w1)"] m
  have tl: "tokenList w' = AList.update k (length (tokenList w)) (tokenList w)" by simp
  then have "map_of (tokenList w') k = Some (length (tokenList w))" by (simp add: update_conv')
  then have "registerAttrKey P k (pool, w) = (Inr (Some (length (tokenList w))), (pool', w'))"
    using assms(3) m by (simp add: registerAttrKey_def Let_def)
  then show ?thesis using tl wo lb by simp
qed

text \<open>
  Claim C8, for names that the command can carry. A second registration of a name, through
  either method, returns the id the table holds for it and changes neither the window nor
  the pool, whatever the name and the state; \<open>_registerStyleKey\<close> and
  \<open>_registerAttrKey\<close> are the same function. On every window reached from the
  constructor (with a pool of blocks of \<open>PAGE_SIZE\<close> bytes), for a name of at most 255
  bytes whose command fits a page (\<open>length + 3 \<le> PAGE_SIZE\<close>): the first registration
  returns an id \<open>n\<close>, through either method, and a second one, through either method,
  returns \<open>n\<close> again and changes nothing. When the name was in the table, \<open>n\<close> is its
  id and the first call changes nothing either. When it was not, \<open>n\<close> is the size of the
  table, the name is entered with \<open>n\<close>, the write offset moves by \<open>length + 3\<close>, and
  the bytes written before it are the MODIFY_TOKENMAP command of the name.
\<close>

theorem token_registration_is_stable:
  "(case registerAttrKey P k st of
      (r1, st1) \<Rightarrow>
        registerAttrKey P k st1 = (Inr (map_of (tokenList (snd st1)) k), st1)
        \<and> registerStyleKey P k st1 = (Inr (map_of (tokenList (snd st1)) k), st1)
        \<and> map_of (tokenList (snd st1)) k \<noteq> None)
   \<and> registerStyleKey P k st = registerAttrKey P k st
   \<and> (list_all (\<lambda>b. length b = P) pool0 \<and> length k \<le> 255 \<and> length k + 3 \<le> P \<longrightarrow>
        (case run P acts (snd (new_window P t0 wid prt pool0)) of
           (pool, w) \<Rightarrow>
             (\<exists>n st1. registerAttrKey P k (pool, w) = (Inr (Some n), st1)
                \<and> registerStyleKey P k (pool, w) = (Inr (Some n), st1)
                \<and> registerAttrKey P k st1 = (Inr (Some n), st1)
                \<and> registerStyleKey P k st1 = (Inr (Some n), st1)
                \<and> (if tokenList_has (tokenList w) k
                    then map_of (tokenList w) k = Some n \<and> st1 = (pool, w)
                    else n = length (tokenList w)
                         \<and> tokenList (snd st1) = AList.update k n (tokenList w)
                         \<and> global_writeOffset (snd st1)
                             = global_writeOffset w + int (length k + 3)
                         \<and> last_bytes (length k + 3) (snd st1) = token_command k))))"
proof -
  have one: "case registerAttrKey P k st of
      (r1, st1) \<Rightarrow>
        registerAttrKey P k st1 = (Inr (map_of (tokenList (snd st1)) k), st1)
        \<and> registerStyleKey P k st1 = (Inr (map_of (tokenList (snd st1)) k), st1)
        \<and> map_of (tokenList (snd st1)) k \<noteq> None"
  proof -
    obtain r1 st1 where f: "registerAttrKey P k st = (r1, st1)" by (metis prod.exhaust)
    from registerAttrKey_first[of P k st] f
    have has: "tokenList_has (tokenList (snd st1)) k" by simp
    show ?thesis
      using f has registerAttrKey_known[OF has, of P]
      by (simp add: registerStyleKey_eq tokenList_has_def)
  qed
  have two: "registerStyleKey P k st = registerAttrKey P k st" by (simp add: registerStyleKey_eq)
  have three: "case run P acts (snd (new_window P t0 wid prt pool0)) of
           (pool, w) \<Rightarrow>
             (\<exists>n st1. registerAttrKey P k (pool, w) = (Inr (Some n), st1)
                \<and> registerStyleKey P k (pool, w) = (Inr (Some n), st1)
                \<and> registerAttrKey P k st1 = (Inr (Some n), st1)
                \<and> registerStyleKey P k st1 = (Inr (Some n), st1)
                \<and> (if tokenList_has (tokenList w) k
                    then map_of (tokenList w) k = Some n \<and> st1 = (pool, w)
                    else n = length (tokenList w)
                         \<and> tokenList (snd st1) = AList.update k n (tokenList w)
                         \<and> global_writeOffset (snd st1)
                             = global_writeOffset w + int (length k + 3)
                         \<and> last_bytes (length k + 3) (snd st1) = token_command k))"
    if h: "list_all (\<lambda>b. length b = P) pool0 \<and> length k \<le> 255 \<and> length k + 3 \<le> P"
  proof -
    let ?st0 = "snd (new_window P t0 wid prt pool0)"
    obtain pool w where r: "run P acts ?st0 = (pool, w)" by (metis prod.exhaust)
    have "live_ok (snd (run P acts ?st0))" by (rule live_ok_reachable)
    then have lo: "live_ok w" using r by simp
    have "blocks_ok P (run P acts ?st0)" using h by (intro blocks_ok_reachable) simp
    then have bo: "blocks_ok P (pool, w)" using r by simp
    show ?thesis
    proof (cases "tokenList_has (tokenList w) k")
      case True
      then obtain n where n: "map_of (tokenList w) k = Some n"
        by (auto simp: tokenList_has_def)
      have "registerAttrKey P k (pool, w) = (Inr (Some n), (pool, w))"
        using True n registerAttrKey_known[of "(pool, w)" k P] by simp
      then show ?thesis using r True n by (simp add: registerStyleKey_eq)
    next
      case False
      from registerAttrKey_new[OF lo bo False] h
      obtain st1 where f: "registerAttrKey P k (pool, w) = (Inr (Some (length (tokenList w))), st1)"
        and tl: "tokenList (snd st1) = AList.update k (length (tokenList w)) (tokenList w)"
        and wo: "global_writeOffset (snd st1) = global_writeOffset w + int (length k + 3)"
        and lb: "last_bytes (length k + 3) (snd st1) = token_command k"
        by auto
      have m: "map_of (tokenList (snd st1)) k = Some (length (tokenList w))"
        using tl by (simp add: update_conv')
      then have has: "tokenList_has (tokenList (snd st1)) k" by (simp add: tokenList_has_def)
      have g: "registerAttrKey P k st1 = (Inr (Some (length (tokenList w))), st1)"
        using registerAttrKey_known[OF has, of P] m by simp
      show ?thesis
        using r False f g tl wo lb by (cases st1) (auto simp: registerStyleKey_eq)
    qed
  qed
  show ?thesis using one two three by blast
qed

theorem token_registration_is_stable_witness:
  "list_all (\<lambda>b. length b = 32) [replicate 32 (255::byte)]
   \<and> length ''color'' \<le> 255 \<and> length ''color'' + 3 \<le> 32
   \<and> \<not> tokenList_has (tokenList (snd (run 32 [Command [1, 2]]
           (snd (new_window 32 0 ''w'' [] [replicate 32 255]))))) ''color''
   \<and> fst (registerStyleKey 32 ''color'' (run 32 [Command [1, 2]]
           (snd (new_window 32 0 ''w'' [] [replicate 32 255])))) = Inr (Some 1)
   \<and> fst (registerAttrKey 32 ''color'' (snd (registerStyleKey 32 ''color'' (run 32 [Command [1, 2]]
           (snd (new_window 32 0 ''w'' [] [replicate 32 255])))))) = Inr (Some 1)
   \<and> last_bytes 8 (snd (snd (registerStyleKey 32 ''color'' (run 32 [Command [1, 2]]
           (snd (new_window 32 0 ''w'' [] [replicate 32 255]))))))
       = [12, 5, 99, 111, 108, 111, 114, 0]
   \<and> snd (registerAttrKey 32 ''color'' (snd (registerStyleKey 32 ''color'' (run 32 [Command [1, 2]]
           (snd (new_window 32 0 ''w'' [] [replicate 32 255]))))))
       = snd (registerStyleKey 32 ''color'' (run 32 [Command [1, 2]]
           (snd (new_window 32 0 ''w'' [] [replicate 32 255]))))"
proof -
  let ?st = "run 32 [Command [1, 2]] (snd (new_window 32 0 ''w'' [] [replicate 32 (255::byte)]))"
  obtain pool w where r: "?st = (pool, w)" by (metis prod.exhaust)
  have h1: "list_all (\<lambda>b. length b = 32) [replicate 32 (255::byte)]" by simp
  have h2: "\<not> tokenList_has (tokenList (snd ?st)) ''color''" by code_simp
  have h3: "length (tokenList (snd ?st)) = 1" by code_simp
  have h4: "token_command ''color'' = [12, 5, 99, 111, 108, 111, 114, 0]" by code_simp
  from token_registration_is_stable[where P = 32 and k = "''color''" and acts = "[Command [1, 2]]"
      and ?t0.0 = 0 and wid = "''w''" and prt = "[]" and ?pool0.0 = "[replicate 32 255]"
      and st = ?st] h1
  obtain n st1 where a: "registerAttrKey 32 ''color'' (pool, w) = (Inr (Some n), st1)"
    "registerStyleKey 32 ''color'' (pool, w) = (Inr (Some n), st1)"
    "registerAttrKey 32 ''color'' st1 = (Inr (Some n), st1)"
    and b: "if tokenList_has (tokenList w) ''color''
            then map_of (tokenList w) ''color'' = Some n \<and> st1 = (pool, w)
            else n = length (tokenList w)
                 \<and> tokenList (snd st1) = AList.update ''color'' n (tokenList w)
                 \<and> global_writeOffset (snd st1) = global_writeOffset w + int (length ''color'' + 3)
                 \<and> last_bytes (length ''color'' + 3) (snd st1) = token_command ''color''"
    using r by auto
  from h2 h3 r b have n: "n = 1" and lb: "last_bytes 8 (snd st1) = token_command ''color''"
    by simp_all
  show ?thesis using h1 h2 h4 r a n lb by simp
qed

text \<open>
  Claim C8 as it is written, for every name, fails for a name of more than 255 bytes: with
  pages of 300 bytes and a name of 256 bytes the first registration raises RangeError
  (\<open>writeUint8(256, 1)\<close>) after the name was entered and 259 bytes of the stream were
  claimed, and the second returns the id 1.
\<close>

theorem long_token_name_counterexample:
  "fst (registerAttrKey 300 (replicate 256 (CHR ''a'')) (snd (new_window 300 0 ''w'' [] [])))
     = Inl RangeError
   \<and> fst (registerAttrKey 300 (replicate 256 (CHR ''a''))
            (snd (registerAttrKey 300 (replicate 256 (CHR ''a''))
                    (snd (new_window 300 0 ''w'' [] [])))))
     = Inr (Some 1)
   \<and> global_writeOffset (snd (snd (new_window 300 0 ''w'' [] []))) = 22
   \<and> global_writeOffset (snd (snd (registerAttrKey 300 (replicate 256 (CHR ''a''))
                                      (snd (new_window 300 0 ''w'' [] []))))) = 22 + 259"
  by code_simp

section \<open>The periodic sweep\<close>

lemma handleBlockCleanup_session:
  "session (snd (snd (handleBlockCleanup P b s))) = session (snd s)"
  using flushBlockDeleteQueue_session[of P s]
  by (cases "flushBlockDeleteQueue P s"; cases "fst (flushBlockDeleteQueue P s)"; cases s)
     (auto simp: handleBlockCleanup_def session_def)

lemma flushBlockDeleteQueue_fits:
  assumes "live_ok w" and "blocks_ok P (pool, w)"
    and "2 * length (deleteBlockQueue w) + 3 \<le> P"
  shows "\<exists>pool' w'. flushBlockDeleteQueue P (pool, w) = (None, (pool', w'))
           \<and> live_ok w' \<and> blocks_ok P (pool', w') \<and> session w' = session w
           \<and> deleteBlockQueue w' = []"
proof -
  obtain e pool' w' where f: "flushBlockDeleteQueue P (pool, w) = (e, (pool', w'))"
    by (metis prod.exhaust)
  have pk: "pages_ok w" using assms(1) by (simp add: live_ok_def)
  have l: "live_ok w'" using live_ok_flushBlockDeleteQueue[of "(pool, w)" P] assms(1) f by simp
  have b: "blocks_ok P (pool', w')"
    using blocks_ok_flushBlockDeleteQueue[of "(pool, w)" P] pk assms(2) f by simp
  have s: "session w' = session w" using flushBlockDeleteQueue_session[of P "(pool, w)"] f by simp
  have "e = None \<and> deleteBlockQueue w' = []"
  proof (cases "length (deleteBlockQueue w) > 0")
    case False
    then show ?thesis using f by (simp add: flushBlockDeleteQueue_def)
  next
    case True
    let ?n = "1 + 2 * int (length (deleteBlockQueue w)) + 2"
    obtain v pool1 w1 where a: "allocCommandBuffer P ?n (pool, w) = (v, (pool1, w1))"
      by (metis prod.exhaust)
    have sz: "0 \<le> ?n" "?n \<le> int P" using assms(3) by simp_all
    from alloc_sized[OF assms(1,2) sz a]
    have "\<not> view_len v < 1 + 2 * length (deleteBlockQueue w) + 2" by simp
    then show ?thesis using True a f by (auto simp: flushBlockDeleteQueue_def)
  qed
  then show ?thesis using f l b s by simp
qed

lemma handleBlockCleanup_fits:
  assumes "live_ok w" and "blocks_ok P (pool, w)" and "queue_fits P (Suc d) w"
  shows "\<exists>pool' w'. handleBlockCleanup P b (pool, w) = (None, (pool', w'))
           \<and> live_ok w' \<and> blocks_ok P (pool', w') \<and> queue_fits P d w'
           \<and> session w' = session w"
proof (cases "length (deleteBlockQueue w) = 1000")
  case True
  have "2 * length (deleteBlockQueue w) + 3 \<le> P"
    using assms(3) True by (simp add: queue_fits_def)
  from flushBlockDeleteQueue_fits[OF assms(1,2) this]
  obtain pool' w' where f: "flushBlockDeleteQueue P (pool, w) = (None, (pool', w'))"
    and ok: "live_ok w'" "blocks_ok P (pool', w')" "session w' = session w"
      "deleteBlockQueue w' = []"
    by blast
  have h: "handleBlockCleanup P b (pool, w)
             = (None, (pool', w'\<lparr>deleteBlockQueue := deleteBlockQueue w' @ [b]\<rparr>))"
    using True f ok(4) by (simp add: handleBlockCleanup_def)
  have q: "queue_fits P d (w'\<lparr>deleteBlockQueue := deleteBlockQueue w' @ [b]\<rparr>)"
    using assms(3) True ok(4) by (simp add: queue_fits_def)
  have s: "session (w'\<lparr>deleteBlockQueue := deleteBlockQueue w' @ [b]\<rparr>) = session w"
    using ok(3) by (simp add: session_def)
  show ?thesis
    using h q s ok(1,2) by (simp add: live_ok_fields blocks_ok_fields)
next
  case False
  then have lt: "length (deleteBlockQueue w) < 1000"
    using assms(3) by (simp add: queue_fits_def)
  have h: "handleBlockCleanup P b (pool, w)
             = (None, (pool, w\<lparr>deleteBlockQueue := deleteBlockQueue w @ [b]\<rparr>))"
    using False lt by (simp add: handleBlockCleanup_def)
  have q: "queue_fits P d (w\<lparr>deleteBlockQueue := deleteBlockQueue w @ [b]\<rparr>)"
    using assms(3) lt by (simp add: queue_fits_def)
  show ?thesis
    using h q assms(1,2) by (simp add: live_ok_fields blocks_ok_fields session_def)
qed

lemma rootDisposer_fits:
  assumes "live_ok w" and "blocks_ok P (pool, w)" and "queue_fits P (length ds) w"
  shows "\<exists>pool' w'. rootDisposer P ds (pool, w) = (None, (pool', w'))
           \<and> live_ok w' \<and> blocks_ok P (pool', w') \<and> session w' = session w"
  using assms
proof (induction ds arbitrary: pool w)
  case Nil
  then show ?case by simp
next
  case (Cons b ds)
  from Cons.prems(3) have "queue_fits P (Suc (length ds)) w" by simp
  from handleBlockCleanup_fits[OF Cons.prems(1,2) this, of b]
  obtain pool1 w1 where h: "handleBlockCleanup P b (pool, w) = (None, (pool1, w1))"
    and ok: "live_ok w1" "blocks_ok P (pool1, w1)" "queue_fits P (length ds) w1"
    and s: "session w1 = session w"
    by blast
  from Cons.IH[OF ok]
  obtain pool' w' where r: "rootDisposer P ds (pool1, w1) = (None, (pool', w'))"
    and ok': "live_ok w'" "blocks_ok P (pool', w')" and s': "session w' = session w1"
    by blast
  show ?case using h r ok' s s' by simp
qed

lemma windows_ok_update:
  assumes "list_all (\<lambda>(k, w). window_ok P (length (disposed k)) w) al"
    and "window_ok P (length (disposed key)) w"
  shows "list_all (\<lambda>(k, w). window_ok P (length (disposed k)) w) (AList.update key w al)"
  using assms by (induction al) auto

lemma windows_ok_delete:
  assumes "list_all (\<lambda>(k, w). window_ok P (length (disposed k)) w) al"
  shows "list_all (\<lambda>(k, w). window_ok P (length (disposed k)) w) (AList.delete key al)"
  using assms by (auto simp: list_all_iff AList.delete_eq)

lemma registry_okD:
  assumes "registry_ok P disposed m" and "map_of (windowMap m) k = Some w"
  shows "window_ok P (length (disposed k)) w" and "destroyFnCallback w = Some k"
proof -
  from assms(2) have "(k, w) \<in> set (windowMap m)" by (rule map_of_SomeD)
  with assms(1) show "window_ok P (length (disposed k)) w"
    by (auto simp: registry_ok_def list_all_iff)
  from assms(1) have "callbacks_ok m" by (simp add: registry_ok_def)
  then show "destroyFnCallback w = Some k" using assms(2) by (rule callbacks_okD)
qed

lemma disconnected_window:
  assumes "evicted now isLowMemory w"
  shows "(if now - lastPongTime w \<ge> 6000 then w\<lparr>connected := False\<rparr> else w)
           = w\<lparr>connected := False\<rparr>"
  using assms by (auto simp: evicted_def stale_def)

lemma sweepWindow_evicts:
  assumes "map_of (windowMap m) key = Some w" and "destroyFnCallback w = Some key"
    and "evicted now isLowMemory w"
    and "window_ok P (length (disposed key)) w"
    and "list_all (\<lambda>b. length b = P) (bufferPool m)"
  shows "\<exists>pool1 w1. rootDisposer P (disposed key) (bufferPool m, w\<lparr>connected := False\<rparr>)
                       = (None, (pool1, w1))
           \<and> sweepWindow P disposed now isLowMemory key m =
               (None, m\<lparr>windowMap := AList.delete key (windowMap m),
                         bufferPool := rev (map (\<lambda>r. buffer (page_objs w1 ! r)) (pages w1))
                                        @ pool1\<rparr>)
           \<and> list_all (\<lambda>b. length b = P)
                (rev (map (\<lambda>r. buffer (page_objs w1 ! r)) (pages w1)) @ pool1)"
proof -
  let ?w = "w\<lparr>connected := False\<rparr>"
  from assms(4) have lo: "live_ok ?w" and bo: "blocks_ok P (bufferPool m, ?w)"
    and qf: "queue_fits P (length (disposed key)) ?w"
    using assms(5)
    by (simp_all add: window_ok_def live_ok_fields blocks_ok_def buffers_ok_fields queue_fits_def)
  from rootDisposer_fits[OF lo bo qf]
  obtain pool1 w1 where r: "rootDisposer P (disposed key) (bufferPool m, ?w) = (None, (pool1, w1))"
    and ok: "live_ok w1" "blocks_ok P (pool1, w1)" and s: "session w1 = session ?w"
    by blast
  have cb: "destroyFnCallback w1 = Some key" using s assms(2) by (simp add: session_def)
  have ev: "\<not> connected ?w \<and> (isLowMemory \<or> now - lastPongTime w \<ge> 60000)"
    using assms(3) by (auto simp: evicted_def stale_def)
  have sw: "sweepWindow P disposed now isLowMemory key m =
               (None, m\<lparr>windowMap := AList.delete key (windowMap m),
                         bufferPool := rev (map (\<lambda>r. buffer (page_objs w1 ! r)) (pages w1))
                                        @ pool1\<rparr>)"
    using assms(1) ev r cb
    by (simp add: sweepWindow_def Let_def disconnected_window[OF assms(3)] destroy_def
        returned_buffers delete_update_same)
  have "list_all (\<lambda>b. length b = P)
          (rev (map (\<lambda>r. buffer (page_objs w1 ! r)) (pages w1)) @ pool1)"
    using ok by (intro returned_sized) (simp_all add: live_ok_def blocks_ok_def)
  then show ?thesis using r sw by blast
qed

lemma sweepWindow_keeps:
  assumes "window_ok P d w" and "list_all (\<lambda>b. length b = P) (bufferPool m)"
    and "map_of (windowMap m) key = Some w" and "\<not> evicted now isLowMemory w"
  shows "\<exists>w' pool. sweepWindow P disposed now isLowMemory key m =
           (None, m\<lparr>windowMap := AList.update key w' (windowMap m), bufferPool := pool\<rparr>)
         \<and> window_ok P d w' \<and> list_all (\<lambda>b. length b = P) pool
         \<and> lastPongTime w' = lastPongTime w \<and> destroyFnCallback w' = destroyFnCallback w
         \<and> connected w' = (connected w \<and> \<not> stale now w)"
proof -
  let ?w1 = "if now - lastPongTime w \<ge> 6000 then w\<lparr>connected := False\<rparr> else w"
  from assms(1) have q: "queue_fits P d w" by (simp add: window_ok_def)
  then have fit: "2 * length (deleteBlockQueue (sendPing ?w1)) + 3 \<le> P"
    by (auto simp: queue_fits_def sendPing_def min_def split: if_splits)
  have lo: "live_ok (sendPing ?w1)"
    using assms(1) by (simp add: window_ok_def sendPing_def live_ok_fields)
  have bo: "blocks_ok P (bufferPool m, sendPing ?w1)"
    using assms(1,2) by (simp add: window_ok_def sendPing_def blocks_ok_def buffers_ok_fields)
  from flushBlockDeleteQueue_fits[OF lo bo fit]
  obtain pool w' where f: "flushBlockDeleteQueue P (bufferPool m, sendPing ?w1) = (None, (pool, w'))"
    and ok: "live_ok w'" "blocks_ok P (pool, w')" and s: "session w' = session (sendPing ?w1)"
    and e: "deleteBlockQueue w' = []"
    by blast
  from s have w': "lastPongTime w' = lastPongTime w \<and> destroyFnCallback w' = destroyFnCallback w
         \<and> connected w' = (connected w \<and> \<not> stale now w)"
    by (auto simp: session_def sendPing_def stale_def)
  have "queue_fits P d w'" using q e by (auto simp: queue_fits_def min_def split: if_splits)
  then have wk: "window_ok P d w'" "list_all (\<lambda>b. length b = P) pool"
    using ok by (simp_all add: window_ok_def blocks_ok_def)
  have "sweepWindow P disposed now isLowMemory key m =
           (None, m\<lparr>windowMap := AList.update key w' (windowMap m), bufferPool := pool\<rparr>)"
    using assms(3,4) f
    by (auto simp: sweepWindow_def Let_def evicted_def stale_def)
  then show ?thesis using w' wk by blast
qed

lemma sweepWindow_step:
  assumes "registry_ok P disposed m"
  shows "\<exists>m1. sweepWindow P disposed now isLowMemory key m = (None, m1)
           \<and> registry_ok P disposed m1
           \<and> (\<forall>k'. k' \<noteq> key \<longrightarrow> map_of (windowMap m1) k' = map_of (windowMap m) k')
           \<and> (case map_of (windowMap m) key of
                 None \<Rightarrow> map_of (windowMap m1) key = None
               | Some w \<Rightarrow> swept now isLowMemory w (map_of (windowMap m1) key))"
proof (cases "map_of (windowMap m) key")
  case None
  then show ?thesis using assms by (simp add: sweepWindow_def)
next
  case (Some w)
  note wk = registry_okD[OF assms Some]
  from assms have cbs: "callbacks_ok m" and pl: "list_all (\<lambda>b. length b = P) (bufferPool m)"
    and ws: "list_all (\<lambda>(k, w). window_ok P (length (disposed k)) w) (windowMap m)"
    by (simp_all add: registry_ok_def)
  show ?thesis
  proof (cases "evicted now isLowMemory w")
    case True
    from sweepWindow_evicts[where disposed = disposed and key = key, OF Some wk(2) True wk(1) pl]
    obtain pool1 w1 where rd: "rootDisposer P (disposed key) (bufferPool m, w\<lparr>connected := False\<rparr>)
                       = (None, (pool1, w1))"
      and sw: "sweepWindow P disposed now isLowMemory key m =
               (None, m\<lparr>windowMap := AList.delete key (windowMap m),
                         bufferPool := rev (map (\<lambda>r. buffer (page_objs w1 ! r)) (pages w1))
                                        @ pool1\<rparr>)"
      and po: "list_all (\<lambda>b. length b = P)
                (rev (map (\<lambda>r. buffer (page_objs w1 ! r)) (pages w1)) @ pool1)"
      by blast
    let ?pool = "rev (map (\<lambda>r. buffer (page_objs w1 ! r)) (pages w1)) @ pool1"
    have "registry_ok P disposed
            (m\<lparr>windowMap := AList.delete key (windowMap m), bufferPool := ?pool\<rparr>)"
      using po callbacks_ok_delete[OF cbs, where k = key and p = ?pool]
        windows_ok_delete[OF ws, of key]
      by (simp add: registry_ok_def)
    then show ?thesis
      using Some True by (simp add: sw swept_def delete_conv')
  next
    case False
    from sweepWindow_keeps[OF wk(1) pl Some False, of disposed]
    obtain w' pool where r: "sweepWindow P disposed now isLowMemory key m =
           (None, m\<lparr>windowMap := AList.update key w' (windowMap m), bufferPool := pool\<rparr>)"
      and ok: "window_ok P (length (disposed key)) w'" "list_all (\<lambda>b. length b = P) pool"
      and w': "lastPongTime w' = lastPongTime w" "destroyFnCallback w' = destroyFnCallback w"
         "connected w' = (connected w \<and> \<not> stale now w)"
      by blast
    have "callbacks_ok (m\<lparr>windowMap := AList.update key w' (windowMap m), bufferPool := pool\<rparr>)"
      using cbs w'(2) wk(2) by (intro callbacks_ok_update) simp_all
    then have "registry_ok P disposed (m\<lparr>windowMap := AList.update key w' (windowMap m),
                                 bufferPool := pool\<rparr>)"
      using ok windows_ok_update[OF ws ok(1)] by (simp add: registry_ok_def)
    then show ?thesis
      using Some False r w' by (simp add: swept_def update_conv')
  qed
qed

lemma swept_again:
  assumes "swept now isLowMemory w (Some w0)" and "swept now isLowMemory w0 cur"
  shows "swept now isLowMemory w cur"
proof -
  from assms(1) have ne: "\<not> evicted now isLowMemory w"
    and f: "lastPongTime w0 = lastPongTime w" "destroyFnCallback w0 = destroyFnCallback w"
      "connected w0 = (connected w \<and> \<not> stale now w)"
    by (auto simp: swept_def split: if_splits)
  have s: "stale now w0 = stale now w" using f(1) by (simp add: stale_def)
  have "evicted now isLowMemory w0 = evicted now isLowMemory w"
    using f s by (auto simp: evicted_def)
  then show ?thesis
    using assms(2) ne f s by (auto simp: swept_def split: option.splits)
qed

lemma sweepWindows_swept:
  assumes "registry_ok P disposed m" and "swept now isLowMemory w (map_of (windowMap m) k)"
  shows "\<exists>m'. sweepWindows P disposed now isLowMemory keys m = (None, m')
           \<and> registry_ok P disposed m'
           \<and> swept now isLowMemory w (map_of (windowMap m') k)"
  using assms
proof (induction keys arbitrary: m)
  case Nil
  then show ?case by simp
next
  case (Cons key keys)
  from sweepWindow_step[OF Cons.prems(1), of now isLowMemory key]
  obtain m1 where m1: "sweepWindow P disposed now isLowMemory key m = (None, m1)"
    "registry_ok P disposed m1"
    "\<forall>k'. k' \<noteq> key \<longrightarrow> map_of (windowMap m1) k' = map_of (windowMap m) k'"
    "case map_of (windowMap m) key of
                 None \<Rightarrow> map_of (windowMap m1) key = None
               | Some w \<Rightarrow> swept now isLowMemory w (map_of (windowMap m1) key)"
    by blast
  have "swept now isLowMemory w (map_of (windowMap m1) k)"
  proof (cases "k = key")
    case False
    then show ?thesis using m1(3) Cons.prems(2) by simp
  next
    case True
    show ?thesis
    proof (cases "map_of (windowMap m) key")
      case None
      then show ?thesis using m1(4) Cons.prems(2) True by simp
    next
      case (Some w0)
      then have "swept now isLowMemory w0 (map_of (windowMap m1) key)" using m1(4) by simp
      moreover have "swept now isLowMemory w (Some w0)" using Cons.prems(2) True Some by simp
      ultimately show ?thesis using True swept_again by blast
    qed
  qed
  from Cons.IH[OF m1(2) this] show ?case using m1(1) by simp
qed

lemma sweepWindows_reaches:
  assumes "registry_ok P disposed m" and "map_of (windowMap m) k = Some w" and "k \<in> set keys"
  shows "\<exists>m'. sweepWindows P disposed now isLowMemory keys m = (None, m')
           \<and> registry_ok P disposed m'
           \<and> swept now isLowMemory w (map_of (windowMap m') k)"
  using assms
proof (induction keys arbitrary: m)
  case Nil
  then show ?case by simp
next
  case (Cons key keys)
  from sweepWindow_step[OF Cons.prems(1), of now isLowMemory key]
  obtain m1 where m1: "sweepWindow P disposed now isLowMemory key m = (None, m1)"
    "registry_ok P disposed m1"
    "\<forall>k'. k' \<noteq> key \<longrightarrow> map_of (windowMap m1) k' = map_of (windowMap m) k'"
    "case map_of (windowMap m) key of
                 None \<Rightarrow> map_of (windowMap m1) key = None
               | Some w \<Rightarrow> swept now isLowMemory w (map_of (windowMap m1) key)"
    by blast
  show ?case
  proof (cases "k = key")
    case True
    then have "swept now isLowMemory w (map_of (windowMap m1) k)"
      using m1(4) Cons.prems(2) by simp
    from sweepWindows_swept[OF m1(2) this, of keys] show ?thesis using m1(1) by simp
  next
    case False
    then have "map_of (windowMap m1) k = Some w" "k \<in> set keys"
      using m1(3) Cons.prems(2,3) by simp_all
    from Cons.IH[OF m1(2) this] show ?thesis using m1(1) by simp
  qed
qed

lemma callbacks_ok_initWindow:
  assumes "callbacks_ok m"
  shows "callbacks_ok (snd (initWindow newWindow windowId port2 m))"
proof -
  obtain e pool w where n: "newWindow windowId port2 (bufferPool m) = (e, (pool, w))"
    by (metis prod.exhaust)
  have "destroyFnCallback (onDestroy windowId w) = Some windowId" by (simp add: onDestroy_def)
  from callbacks_ok_update[OF assms this, of pool] show ?thesis
    using n assms by (cases e) (simp_all add: initWindow_def callbacks_ok_def)
qed

text \<open>
  Claim C5. Take a registry in which the windows carry the closure of \<open>initWindow\<close>,
  blocks keep their size and the REMOVE_BLOCKS commands that the sweep can write fit a
  page (\<open>registry_ok\<close>, which the sweep keeps). One run of the periodic sweep ends without
  an exception and, for every registered window \<open>w\<close>: when \<open>w\<close> is disconnected, or its
  last pong is at least 6000 ms old, and memory is low or the last pong is at least
  60000 ms old, \<open>w\<close> is no longer in the registry, and its turn of the loop is
  \<open>destroy\<close>: the disposer runs its cleanups, the session is deleted and the buffer of
  every page of \<open>pages\<close> goes to the pool. In every other case \<open>w\<close> stays registered
  with its last pong time, connected exactly when it was connected and its last pong is
  less than 6000 ms old. In particular a window disconnected since the time \<open>since\<close>,
  with no pong after it, is destroyed by a sweep at or after \<open>since + 60000\<close>.
\<close>

theorem sweep_disconnects_then_destroys:
  assumes "registry_ok P disposed m" and "map_of (windowMap m) k = Some w"
  shows "\<exists>m'. runWindowsLifecycleManagement P disposed now isLowMemory m = (None, m')
           \<and> registry_ok P disposed m'
           \<and> (if (\<not> connected w \<or> now - lastPongTime w \<ge> 6000)
                  \<and> (isLowMemory \<or> now - lastPongTime w \<ge> 60000)
               then map_of (windowMap m') k = None
                    \<and> (\<exists>pool1 w1.
                          rootDisposer P (disposed k) (bufferPool m, w\<lparr>connected := False\<rparr>)
                            = (None, (pool1, w1))
                          \<and> sweepWindow P disposed now isLowMemory k m =
                              (None, m\<lparr>windowMap := AList.delete k (windowMap m),
                                        bufferPool :=
                                          rev (map (\<lambda>r. buffer (page_objs w1 ! r)) (pages w1))
                                          @ pool1\<rparr>))
               else (\<exists>w'. map_of (windowMap m') k = Some w'
                          \<and> connected w' = (connected w \<and> now - lastPongTime w < 6000)
                          \<and> lastPongTime w' = lastPongTime w))
           \<and> (\<not> connected w \<and> lastPongTime w \<le> since \<and> since + 60000 \<le> now
                \<longrightarrow> map_of (windowMap m') k = None)"
proof -
  have "k \<in> set (map fst (windowMap m))"
    using assms(2) by (metis map_of_SomeD set_zip_leftD zip_map_fst_snd)
  from sweepWindows_reaches[OF assms this, of now isLowMemory]
  obtain m' where m': "runWindowsLifecycleManagement P disposed now isLowMemory m = (None, m')"
    "swept now isLowMemory w (map_of (windowMap m') k)" "registry_ok P disposed m'"
    by (auto simp: runWindowsLifecycleManagement_def)
  note wk = registry_okD[OF assms]
  from assms(1) have pl: "list_all (\<lambda>b. length b = P) (bufferPool m)"
    by (simp add: registry_ok_def)
  have ev: "evicted now isLowMemory w
              = ((\<not> connected w \<or> now - lastPongTime w \<ge> 6000)
                  \<and> (isLowMemory \<or> now - lastPongTime w \<ge> 60000))"
    by (simp add: evicted_def stale_def)
  have a: "map_of (windowMap m') k = None
          \<and> (\<exists>pool1 w1.
                          rootDisposer P (disposed k) (bufferPool m, w\<lparr>connected := False\<rparr>)
                            = (None, (pool1, w1))
                          \<and> sweepWindow P disposed now isLowMemory k m =
                              (None, m\<lparr>windowMap := AList.delete k (windowMap m),
                                        bufferPool :=
                                          rev (map (\<lambda>r. buffer (page_objs w1 ! r)) (pages w1))
                                          @ pool1\<rparr>))"
    if e: "evicted now isLowMemory w"
    using m'(2) e sweepWindow_evicts[where disposed = disposed and key = k,
        OF assms(2) wk(2) e wk(1) pl]
    by (auto simp: swept_def)
  have b: "\<exists>w'. map_of (windowMap m') k = Some w'
                          \<and> connected w' = (connected w \<and> now - lastPongTime w < 6000)
                          \<and> lastPongTime w' = lastPongTime w"
    if "\<not> evicted now isLowMemory w"
    using m'(2) that by (auto simp: swept_def stale_def split: option.splits)
  have c: "map_of (windowMap m') k = None"
    if "\<not> connected w \<and> lastPongTime w \<le> since \<and> since + 60000 \<le> now"
  proof -
    from that have "evicted now isLowMemory w" by (simp add: evicted_def stale_def)
    then show ?thesis using m'(2) by (simp add: swept_def)
  qed
  show ?thesis
  proof (cases "evicted now isLowMemory w")
    case True
    then show ?thesis using m'(1,3) a c ev by auto
  next
    case False
    then show ?thesis using m'(1,3) b c ev by auto
  qed
qed

theorem sweep_disconnects_then_destroys_witness:
  "registry_ok 32 (\<lambda>k. [11, 12])
      \<lparr>windowMap = [(''a'', onDestroy ''a'' (snd (snd (new_window 32 1000 ''a'' [] []))))],
        queue = [], emptyQueueResolved = 0, messageLimiter = [], bufferPool = []\<rparr>
   \<and> lastPongTime (onDestroy ''a'' (snd (snd (new_window 32 1000 ''a'' [] [])))) = 1000
   \<and> connected (onDestroy ''a'' (snd (snd (new_window 32 1000 ''a'' [] []))))
   \<and> (\<exists>m' w'. runWindowsLifecycleManagement 32 (\<lambda>k. [11, 12]) 6999 True
      \<lparr>windowMap = [(''a'', onDestroy ''a'' (snd (snd (new_window 32 1000 ''a'' [] []))))],
        queue = [], emptyQueueResolved = 0, messageLimiter = [], bufferPool = []\<rparr>
           = (None, m')
         \<and> map_of (windowMap m') ''a'' = Some w' \<and> connected w')
   \<and> (\<exists>m' w'. runWindowsLifecycleManagement 32 (\<lambda>k. [11, 12]) 7000 False
      \<lparr>windowMap = [(''a'', onDestroy ''a'' (snd (snd (new_window 32 1000 ''a'' [] []))))],
        queue = [], emptyQueueResolved = 0, messageLimiter = [], bufferPool = []\<rparr>
           = (None, m')
         \<and> map_of (windowMap m') ''a'' = Some w' \<and> \<not> connected w')
   \<and> (\<exists>m' w'. runWindowsLifecycleManagement 32 (\<lambda>k. [11, 12]) 60999 False
      \<lparr>windowMap = [(''a'', onDestroy ''a'' (snd (snd (new_window 32 1000 ''a'' [] []))))],
        queue = [], emptyQueueResolved = 0, messageLimiter = [], bufferPool = []\<rparr>
           = (None, m')
         \<and> map_of (windowMap m') ''a'' = Some w' \<and> \<not> connected w')
   \<and> (\<exists>m'. runWindowsLifecycleManagement 32 (\<lambda>k. [11, 12]) 61000 False
      \<lparr>windowMap = [(''a'', onDestroy ''a'' (snd (snd (new_window 32 1000 ''a'' [] []))))],
        queue = [], emptyQueueResolved = 0, messageLimiter = [], bufferPool = []\<rparr>
           = (None, m')
         \<and> map_of (windowMap m') ''a'' = None)
   \<and> (\<exists>m'. runWindowsLifecycleManagement 32 (\<lambda>k. [11, 12]) 7000 True
      \<lparr>windowMap = [(''a'', onDestroy ''a'' (snd (snd (new_window 32 1000 ''a'' [] []))))],
        queue = [], emptyQueueResolved = 0, messageLimiter = [], bufferPool = []\<rparr>
           = (None, m')
         \<and> map_of (windowMap m') ''a'' = None)
   \<and> length (bufferPool (snd (runWindowsLifecycleManagement 32 (\<lambda>k. [11, 12]) 61000 False
      \<lparr>windowMap = [(''a'', onDestroy ''a'' (snd (snd (new_window 32 1000 ''a'' [] []))))],
        queue = [], emptyQueueResolved = 0, messageLimiter = [], bufferPool = []\<rparr>))) = 1"
proof -
  let ?w = "onDestroy ''a'' (snd (snd (new_window 32 1000 ''a'' [] [])))"
  let ?m = "\<lparr>windowMap = [(''a'', ?w)],
        queue = [], emptyQueueResolved = 0, messageLimiter = [], bufferPool = []\<rparr>"
  let ?d = "\<lambda>k::string. [11, 12::16 word]"
  have h1: "registry_ok 32 ?d ?m" by code_simp
  have h2: "map_of (windowMap ?m) ''a'' = Some ?w" by simp
  have h3: "lastPongTime ?w = 1000" by code_simp
  have h4: "connected ?w" by code_simp
  have h5: "length (bufferPool (snd (runWindowsLifecycleManagement 32 ?d 61000 False ?m))) = 1"
    by code_simp
  note t = sweep_disconnects_then_destroys[OF h1 h2]
  from t[of 6999 True 0] h3 h4
  have a: "\<exists>m' w'. runWindowsLifecycleManagement 32 ?d 6999 True ?m = (None, m')
         \<and> map_of (windowMap m') ''a'' = Some w' \<and> connected w'"
    by auto
  from t[of 7000 False 0] h3 h4
  have b: "\<exists>m' w'. runWindowsLifecycleManagement 32 ?d 7000 False ?m = (None, m')
         \<and> map_of (windowMap m') ''a'' = Some w' \<and> \<not> connected w'"
    by auto
  from t[of 60999 False 0] h3 h4
  have c: "\<exists>m' w'. runWindowsLifecycleManagement 32 ?d 60999 False ?m = (None, m')
         \<and> map_of (windowMap m') ''a'' = Some w' \<and> \<not> connected w'"
    by auto
  from t[of 61000 False 0] h3 h4
  have d: "\<exists>m'. runWindowsLifecycleManagement 32 ?d 61000 False ?m = (None, m')
         \<and> map_of (windowMap m') ''a'' = None"
    by auto
  from t[of 7000 True 0] h3 h4
  have e: "\<exists>m'. runWindowsLifecycleManagement 32 ?d 7000 True ?m = (None, m')
         \<and> map_of (windowMap m') ''a'' = None"
    by auto
  show ?thesis using h1 h3 h4 h5 a b c d e by blast
qed

end
